theory Spec2Isabelle
  imports Complex_Main "HOL-Library.Log_Nat"
begin

chapter \<open>Answer extraction and ensemble decision: the model\<close>

section \<open>Python values shared by the model\<close>

text \<open>
  The pipeline is Python. A \<open>str\<close> is modelled as a list of characters whose code points lie
  below 256 (the Latin-1 range); the character classes below are the ones Python's
  \<open>str.isdigit\<close>, \<open>str.isalpha\<close>, \<open>str.isspace\<close> and the regular-expression class
  \<open>\w\<close> have on that range. An exception is a value of \<open>py_exception\<close>, and a function
  that can raise returns \<open>py_exception + 'a\<close> with \<open>Inl\<close> the raised exception.
\<close>

datatype py_exception = ValueError | IndexError | KeyError | TypeError | SyntaxError
  | TimeoutExpired | OSError | OtherException

definition ascii_digit :: "char \<Rightarrow> bool" where
  "ascii_digit c \<longleftrightarrow> c \<in> set ''0123456789''"

text \<open>
  \<open>str.isdigit\<close> on the modelled range: the ASCII digits and the superscript digits U+00B2,
  U+00B3 and U+00B9. Beyond code point 255 Python's \<open>isdigit\<close> also holds for the decimal
  digits of other scripts (U+0663, U+FF13, ...); a string of the model holds none of them, so
  a statement about strings without digits is phrased with \<open>py_isdigit\<close>, the model of
  \<open>str.isdigit\<close>, and \<open>ascii_digit\<close> is used only where the text itself is required
  to consist of the digits \<open>0\<close> to \<open>9\<close>.
\<close>

definition py_isdigit :: "char \<Rightarrow> bool" where
  "py_isdigit c \<longleftrightarrow> ascii_digit c \<or> c \<in> {CHR 0xB2, CHR 0xB3, CHR 0xB9}"

definition py_isspace :: "char \<Rightarrow> bool" where
  "py_isspace c \<longleftrightarrow>
     c \<in> {CHR 0x09, CHR 0x0A, CHR 0x0B, CHR 0x0C, CHR 0x0D, CHR 0x1C, CHR 0x1D, CHR 0x1E,
           CHR 0x1F, CHR 0x20, CHR 0x85, CHR 0xA0}"

definition py_strip :: "string \<Rightarrow> string" where
  "py_strip s = rev (dropWhile py_isspace (rev (dropWhile py_isspace s)))"

section \<open>Numeric canonicalizer: \<open>extract_and_format_value\<close>\<close>

subsection \<open>Python floats\<close>

text \<open>
  A Python \<open>float\<close> is an IEEE 754 binary64 value: a sign bit with an exact rational magnitude,
  an infinity, or NaN. \<open>double_of_rat\<close> rounds a non-negative rational to the nearest binary64
  magnitude, ties to even: the quantum is \<open>2 powi e\<close> with \<open>e\<close> the exponent of the last of
  the 53 significand bits (not below \<open>- 1074\<close>, the subnormal quantum), and a result of
  \<open>2 ^ 1024\<close> or more is an infinity.
\<close>

datatype pyfloat = Finite bool rat | Infinity bool | NaN

definition round_half_even :: "rat \<Rightarrow> int" where
  "round_half_even x =
     (let f = \<lfloor>x\<rfloor>; d = x - of_int f
      in if d < 1 / 2 then f else if 1 / 2 < d then f + 1 else if even f then f else f + 1)"

definition floor_log2 :: "rat \<Rightarrow> int" where
  "floor_log2 q =
     (let (a, b) = quotient_of q; k = bitlen a - bitlen b
      in if 2 powi k \<le> q then k else k - 1)"

definition double_of_rat :: "bool \<Rightarrow> rat \<Rightarrow> pyfloat" where
  "double_of_rat neg q =
     (if q = 0 then Finite neg 0
      else
        (let e = max (floor_log2 q - 52) (- 1074);
             m = round_half_even (q / 2 powi e);
             v = of_int m * 2 powi e
         in if 2 ^ 1024 \<le> v then Infinity neg else Finite neg v))"

subsection \<open>\<open>float(str)\<close>\<close>

text \<open>
  \<open>py_float\<close> is Python's \<open>float\<close> on a string: surrounding whitespace is stripped, a sign
  is optional, and the rest is \<open>digits\<close>, \<open>digits.\<close>, \<open>digits.digits\<close> or \<open>.digits\<close> with
  ASCII digits; the value is the correctly rounded binary64. Anything else raises
  \<open>ValueError\<close>. Three things Python's \<open>float\<close> accepts are left out: exponents and
  underscores between digits, and the words \<open>inf\<close> and \<open>nan\<close> (the scan below never
  produces a letter or an underscore, lemma \<open>scan_alphabet\<close>); and the decimal digits of
  other scripts beyond code point 255 (\<open>float\<close> of U+0663 is 3.0), which a string of the
  model cannot hold. On the modelled range the superscript digits are the only
  \<open>isdigit\<close> characters that are not ASCII digits, and \<open>float\<close> rejects them.
\<close>

definition digit_val :: "char \<Rightarrow> int" where
  "digit_val c = of_char c - 48"

definition int_of_digits :: "string \<Rightarrow> int" where
  "int_of_digits ds = foldl (\<lambda>n c. 10 * n + digit_val c) 0 ds"

definition float_unsigned :: "bool \<Rightarrow> string \<Rightarrow> py_exception + pyfloat" where
  "float_unsigned neg s =
     (let ip = takeWhile ascii_digit s; rest = dropWhile ascii_digit s
      in if rest = [] then
           (if ip = [] then Inl ValueError
            else Inr (double_of_rat neg (of_int (int_of_digits ip))))
         else if hd rest = CHR ''.'' \<and> list_all ascii_digit (tl rest) \<and> (ip \<noteq> [] \<or> tl rest \<noteq> [])
         then Inr (double_of_rat neg
                (of_int (int_of_digits (ip @ tl rest)) / 10 ^ length (tl rest)))
         else Inl ValueError)"

definition py_float :: "string \<Rightarrow> py_exception + pyfloat" where
  "py_float s =
     (case py_strip s of
        [] \<Rightarrow> Inl ValueError
      | c # cs \<Rightarrow>
          if c = CHR ''-'' then float_unsigned True cs
          else if c = CHR ''+'' then float_unsigned False cs
          else float_unsigned False (c # cs))"

subsection \<open>The format \<open>{:,.2f}\<close>\<close>

text \<open>
  The exact value is rounded to two decimals, ties to even; the integer part is grouped in
  threes with commas; the sign bit alone decides the minus sign (so \<open>-0.001\<close> prints as
  \<open>-0.00\<close>); an infinity prints as \<open>inf\<close> or \<open>-inf\<close>.
\<close>

definition digit_char :: "int \<Rightarrow> char" where
  "digit_char d = ''0123456789'' ! nat d"

function digits_of_int :: "int \<Rightarrow> string" where
  "digits_of_int n =
     (if n < 10 then [digit_char n]
      else digits_of_int (n div 10) @ [digit_char (n mod 10)])"
  by pat_completeness auto
termination
  by (relation "measure nat") auto

declare digits_of_int.simps [simp del]

function group_thousands :: "string \<Rightarrow> string" where
  "group_thousands s =
     (if length s \<le> 3 then s
      else group_thousands (take (length s - 3) s) @ '','' @ drop (length s - 3) s)"
  by pat_completeness auto
termination
  by (relation "measure length") auto

declare group_thousands.simps [simp del]

definition format_2f :: "pyfloat \<Rightarrow> string" where
  "format_2f x =
     (case x of
        NaN \<Rightarrow> ''nan''
      | Infinity neg \<Rightarrow> (if neg then ''-inf'' else ''inf'')
      | Finite neg v \<Rightarrow>
          (let cents = round_half_even (v * 100)
           in (if neg then ''-'' else [])
              @ group_thousands (digits_of_int (cents div 100))
              @ ''.'' @ [digit_char (cents mod 100 div 10), digit_char (cents mod 10)]))"

subsection \<open>The backward scan\<close>

text \<open>
  \<open>scan\<close> is the \<open>for char in reversed_input\<close> loop, with the flag \<open>found_digit\<close> and the
  accumulator \<open>numeric_part_reversed\<close> as arguments; a \<open>break\<close> returns the accumulator. The
  argument of \<open>extract_and_format_value\<close> is the string the function works on (a value that
  is not a \<open>str\<close> is first replaced by its \<open>str()\<close>). Only \<open>ValueError\<close> is caught.
\<close>

fun scan :: "bool \<Rightarrow> string \<Rightarrow> string \<Rightarrow> string" where
  "scan found_digit numeric_part_reversed [] = numeric_part_reversed"
| "scan found_digit numeric_part_reversed (c # cs) =
     (if py_isdigit c \<or> (c = CHR ''.'' \<and> found_digit)
        then scan True (numeric_part_reversed @ [c]) cs
      else if c = CHR '','' \<and> found_digit then scan found_digit numeric_part_reversed cs
      else if c = CHR ''-'' \<and> found_digit then numeric_part_reversed @ [c]
      else if found_digit then numeric_part_reversed
      else scan found_digit numeric_part_reversed cs)"

definition numeric_part :: "string \<Rightarrow> string" where
  "numeric_part input_value = rev (scan False [] (rev input_value))"

definition extract_and_format_value :: "string \<Rightarrow> py_exception + string" where
  "extract_and_format_value input_value =
     (case py_float (filter (\<lambda>c. c \<noteq> CHR '','') (numeric_part input_value)) of
        Inr x \<Rightarrow> Inr (format_2f x)
      | Inl e \<Rightarrow> if e = ValueError then Inr ''bug'' else Inl e)"

subsection \<open>Well-formed decimal strings and binary64 values\<close>

text \<open>
  A well-formed decimal string: an optional minus sign; an integer part that starts with a
  digit and consists of digits and commas (grouped or not); and optionally a point followed
  by at least one digit.
\<close>

definition well_formed_decimal :: "string \<Rightarrow> bool" where
  "well_formed_decimal x \<longleftrightarrow>
     (let body = (if take 1 x = ''-'' then drop 1 x else x);
          ip = takeWhile (\<lambda>c. c \<noteq> CHR ''.'') body;
          tail = dropWhile (\<lambda>c. c \<noteq> CHR ''.'') body
      in ip \<noteq> [] \<and> ascii_digit (hd ip) \<and> list_all (\<lambda>c. ascii_digit c \<or> c = CHR '','') ip
         \<and> (tail = [] \<or> (tl tail \<noteq> [] \<and> list_all ascii_digit (tl tail))))"

text \<open>The minus sign that the sign bit prints.\<close>

definition sign_of :: "bool \<Rightarrow> string" where
  "sign_of neg = (if neg then ''-'' else [])"

text \<open>
  The quantum of \<open>double_of_rat\<close> at \<open>q\<close>, the magnitude it rounds to, and the binary64
  magnitudes: an integer significand of at most 53 bits (\<open>2 ^ 53\<close> included, which is the
  next power of two) times a power of two not below the subnormal quantum.
\<close>

definition quantum :: "rat \<Rightarrow> rat" where
  "quantum q = 2 powi (max (floor_log2 q - 52) (- 1074))"

definition nearest_double :: "rat \<Rightarrow> rat" where
  "nearest_double q = of_int (round_half_even (q / quantum q)) * quantum q"

definition is_double :: "rat \<Rightarrow> bool" where
  "is_double w \<longleftrightarrow> (\<exists>m e. 0 \<le> m \<and> m \<le> 2 ^ 53 \<and> - 1074 \<le> e \<and> w = of_int m * 2 powi e)"

section \<open>Sample aggregator: \<open>select_mode_or_sample\<close>\<close>

text \<open>
  A Python dict is an association list in insertion order with distinct keys. \<open>max\<close> of an
  empty sequence raises \<open>ValueError\<close>; \<open>random.choice\<close> of an empty sequence raises
  \<open>IndexError\<close> and otherwise returns the element at a random index below the length, which
  the model takes from the draw \<open>r\<close> of the random source. Printing is left out.
  \<open>select_mode_or_sample\<close> is the function of \<open>utils/v3\<close>; the one of \<open>utils/v2\<close> takes the
  dict from answers to their supporting predictions and first counts them.
\<close>

type_synonym freq_table = "(string \<times> nat) list"

definition py_max :: "nat list \<Rightarrow> py_exception + nat" where
  "py_max xs = (if xs = [] then Inl ValueError else Inr (Max (set xs)))"

definition random_choice :: "nat \<Rightarrow> 'a list \<Rightarrow> py_exception + 'a" where
  "random_choice r xs = (if xs = [] then Inl IndexError else Inr (xs ! (r mod length xs)))"

definition modes_of :: "freq_table \<Rightarrow> nat \<Rightarrow> string list" where
  "modes_of tbl max_frequency = map fst (filter (\<lambda>(concise, freq). freq = max_frequency) tbl)"

fun weighted_modes :: "freq_table \<Rightarrow> string list \<Rightarrow> py_exception + string list" where
  "weighted_modes tbl [] = Inr []"
| "weighted_modes tbl (m # ms) =
     (case map_of tbl m of
        None \<Rightarrow> Inl KeyError
      | Some f \<Rightarrow>
          (case weighted_modes tbl ms of
             Inl e \<Rightarrow> Inl e
           | Inr rest \<Rightarrow> Inr (replicate f m @ rest)))"

definition select_mode_or_sample :: "nat \<Rightarrow> freq_table \<Rightarrow> py_exception + (string \<times> string)" where
  "select_mode_or_sample r concise_pred_frequencies =
     (case py_max (map snd concise_pred_frequencies) of
        Inl e \<Rightarrow> Inl e
      | Inr max_frequency \<Rightarrow>
          (let modes = modes_of concise_pred_frequencies max_frequency in
           if length modes = 1 then Inr (hd modes, ''mode'')
           else
             (case weighted_modes concise_pred_frequencies modes of
                Inl e \<Rightarrow> Inl e
              | Inr pool \<Rightarrow>
                  (case random_choice r pool of
                     Inl e \<Rightarrow> Inl e
                   | Inr choice \<Rightarrow> Inr (choice, ''sampling'')))))"

definition select_mode_or_sample_v2 ::
  "nat \<Rightarrow> (string \<times> string list) list \<Rightarrow> py_exception + (string \<times> string)" where
  "select_mode_or_sample_v2 r unique_valid_concise =
     select_mode_or_sample r
       (map (\<lambda>(concise, details). (concise, length details)) unique_valid_concise)"

section \<open>Equation extractor: \<open>get_declarative_equations\<close>\<close>

subsection \<open>Character classes and string operations\<close>

definition ascii_letter :: "char \<Rightarrow> bool" where
  "ascii_letter c \<longleftrightarrow>
     c \<in> set ''abcdefghijklmnopqrstuvwxyz'' \<or> c \<in> set ''ABCDEFGHIJKLMNOPQRSTUVWXYZ''"

text \<open>
  \<open>str.isalpha\<close> on one character: beyond the ASCII letters, the Latin-1 letters U+00AA,
  U+00B5, U+00BA, U+00C0 to U+00D6, U+00D8 to U+00F6 and U+00F8 to U+00FF.
\<close>

definition py_isalpha :: "char \<Rightarrow> bool" where
  "py_isalpha c \<longleftrightarrow>
     ascii_letter c \<or>
     (let n = (of_char c :: nat)
      in n = 170 \<or> n = 181 \<or> n = 186 \<or> (192 \<le> n \<and> n \<le> 214) \<or> (216 \<le> n \<and> n \<le> 246)
         \<or> (248 \<le> n \<and> n \<le> 255))"

text \<open>
  The class \<open>\w\<close> of \<open>re\<close> on a \<open>str\<close>: alphanumeric characters (letters, the characters
  of \<open>str.isdigit\<close>, and the vulgar fractions U+00BC to U+00BE, which are numeric) and the
  underscore. \<open>\s\<close> is \<open>py_isspace\<close>.
\<close>

definition re_word :: "char \<Rightarrow> bool" where
  "re_word c \<longleftrightarrow>
     py_isalpha c \<or> py_isdigit c \<or> c \<in> {CHR 0xBC, CHR 0xBD, CHR 0xBE} \<or> c = CHR ''_''"

text \<open>\<open>s.isalpha()\<close>: every character is alphabetic and there is at least one.\<close>

definition str_isalpha :: "string \<Rightarrow> bool" where
  "str_isalpha s \<longleftrightarrow> s \<noteq> [] \<and> list_all py_isalpha s"

text \<open>\<open>s.split(sep)\<close> for a one-character separator: at least one piece.\<close>

definition py_split :: "char \<Rightarrow> string \<Rightarrow> string list" where
  "py_split sep s = foldr (\<lambda>c acc. if c = sep then [] # acc else (c # hd acc) # tl acc) s [[]]"

text \<open>\<open>s.find(pat)\<close> as an option: the index of the first occurrence of \<open>pat\<close> in \<open>s\<close>.\<close>

fun find_sub :: "string \<Rightarrow> string \<Rightarrow> nat option" where
  "find_sub pat [] = (if pat = [] then Some 0 else None)"
| "find_sub pat (c # cs) =
     (if take (length pat) (c # cs) = pat then Some 0 else map_option Suc (find_sub pat cs))"

subsection \<open>\<open>re.findall(r'\[\[.*?\]\]', prediction)\<close>\<close>

text \<open>
  \<open>find_close\<close> is the lazy \<open>.*?\]\]\<close>: the shortest run of characters other than a newline
  that is followed by two closing brackets; it returns the run and what follows the brackets.
  \<open>findall_brackets\<close> walks the text; after a match it skips the characters of the match
  (\<open>skip\<close> counts the ones still to skip), as \<open>findall\<close> resumes after a match.
\<close>

fun find_close :: "string \<Rightarrow> (string \<times> string) option" where
  "find_close [] = None"
| "find_close (c # cs) =
     (if c = CHR '']'' \<and> take 1 cs = '']'' then Some ([], tl cs)
      else if c = CHR 0x0A then None
      else map_option (\<lambda>(body, after). (c # body, after)) (find_close cs))"

fun findall_brackets :: "nat \<Rightarrow> string \<Rightarrow> string list" where
  "findall_brackets skip [] = []"
| "findall_brackets (Suc skip) (c # cs) = findall_brackets skip cs"
| "findall_brackets 0 (c # cs) =
     (if c = CHR ''['' \<and> take 1 cs = ''[''
      then (case find_close (tl cs) of
              Some (body, after) \<Rightarrow>
                (''[['' @ body @ '']]'') # findall_brackets (length body + 3) cs
            | None \<Rightarrow> findall_brackets 0 cs)
      else findall_brackets 0 cs)"

text \<open>A text has a substring delimited by double square brackets.\<close>

definition has_bracketed :: "string \<Rightarrow> bool" where
  "has_bracketed s \<longleftrightarrow> (\<exists>u v w. s = u @ ''[['' @ v @ '']]'' @ w)"

subsection \<open>The functions of \<open>declarative.py\<close>\<close>

definition clean_equation_text :: "string \<Rightarrow> string" where
  "clean_equation_text equation_text =
     filter (\<lambda>c. re_word c \<or> py_isspace c \<or> c \<in> set ''=+-*/()0123456789.[]'') equation_text"

text \<open>\<open>eq[2 : -2]\<close>: without the first two and the last two characters.\<close>

definition slice_2_m2 :: "string \<Rightarrow> string" where
  "slice_2_m2 eq = take (length eq - 4) (drop 2 eq)"

definition reformat_incre_equations :: "string list \<Rightarrow> string" where
  "reformat_incre_equations x =
     foldl (\<lambda>result eq. if length result = 0 then result @ slice_2_m2 eq
                          else result @ '', '' @ slice_2_m2 eq) [] x"

definition reformat_equations_from_peano :: "string \<Rightarrow> string" where
  "reformat_equations_from_peano eq_list =
     foldl (\<lambda>result eq.
        (case find_sub ''eq'' eq of
           Some i \<Rightarrow>
             (if length result = 0 then result @ drop (i + 2) eq
              else result @ '', '' @ drop (i + 2) eq)
         | None \<Rightarrow>
             (case find_sub ''answer'' eq of
                Some j \<Rightarrow>
                  (if length result = 0 then result @ py_strip (drop (j + 6) eq) @ '' = ?''
                   else result @ '', '' @ py_strip (drop (j + 6) eq) @ '' = ?'')
              | None \<Rightarrow> result)))
       [] (py_split CHR '','' eq_list)"

definition get_declarative_equations :: "string \<Rightarrow> string" where
  "get_declarative_equations prediction =
     (let eq_list = findall_brackets 0 prediction
      in if length eq_list > 0
         then reformat_equations_from_peano
                (reformat_incre_equations (map clean_equation_text eq_list))
         else prediction)"

section \<open>Symbolic solver: \<open>simplify_variables\<close> and \<open>get_final_using_sympy\<close>\<close>

subsection \<open>What the solver uses from outside the repository\<close>

text \<open>
  SymPy and the iteration order of a Python set are not part of the repository; they are
  parameters of the model, and the theorems hold for every value of them. Each field is one
  expression of the source that calls the library, with the exception it may raise:
  \<^item> \<open>parse_expr\<close>: \<open>parse_expr(s, transformations=transformations)\<close>;
  \<^item> \<open>sympify\<close>: \<open>sympify(e)\<close>;
  \<^item> \<open>float_of\<close>: \<open>float(e)\<close> of an expression;
  \<^item> \<open>solve_first\<close>: \<open>float(solve(e)[0])\<close>;
  \<^item> \<open>solve_for\<close>: \<open>float(solve(es)[Symbol(goal_var)])\<close>;
  \<^item> \<open>solve_first_for\<close>: \<open>float(solve(es)[0][Symbol(goal_var)])\<close>;
  \<^item> \<open>set_iter\<close>: the order in which Python iterates over \<open>set(xs)\<close>.
\<close>

record 'e solver_env =
  parse_expr :: "string \<Rightarrow> py_exception + 'e"
  sympify :: "'e \<Rightarrow> py_exception + 'e"
  float_of :: "'e \<Rightarrow> py_exception + pyfloat"
  solve_first :: "'e \<Rightarrow> py_exception + pyfloat"
  solve_for :: "'e list \<Rightarrow> string \<Rightarrow> py_exception + pyfloat"
  solve_first_for :: "'e list \<Rightarrow> string \<Rightarrow> py_exception + pyfloat"
  set_iter :: "string list \<Rightarrow> string list"

text \<open>An iteration order of a set lists each element once.\<close>

definition set_iter_ok :: "(string list \<Rightarrow> string list) \<Rightarrow> string list \<Rightarrow> bool" where
  "set_iter_ok it xs \<longleftrightarrow> distinct (it xs) \<and> set (it xs) = set xs"

subsection \<open>\<open>simplify_variables\<close>\<close>

text \<open>
  \<open>re_findall_ident\<close> is \<open>re.findall(r'\b[a-zA-Z_]\w*\b', equations)\<close>: a match starts at a
  word boundary (the flag says whether the previous character is a word character) with an
  ASCII letter or underscore and runs to the end of the run of word characters.
\<close>

definition ident_start :: "char \<Rightarrow> bool" where
  "ident_start c \<longleftrightarrow> ascii_letter c \<or> c = CHR ''_''"

fun re_findall_ident :: "bool \<Rightarrow> string \<Rightarrow> string list" where
  "re_findall_ident prev_word [] = []"
| "re_findall_ident prev_word (c # cs) =
     (if \<not> prev_word \<and> ident_start c
      then takeWhile re_word (c # cs) # re_findall_ident True cs
      else re_findall_ident (re_word c) cs)"

text \<open>
  \<open>re.sub(r'\b{}\b'.format(long_var), short_var, equations)\<close> for an identifier \<open>long_var\<close>:
  the text is cut into maximal runs of word characters and of other characters, and every
  run equal to \<open>long_var\<close> is replaced.
\<close>

definition word_runs :: "string \<Rightarrow> string list" where
  "word_runs s =
     foldr (\<lambda>c acc.
        (case acc of
           [] \<Rightarrow> [[c]]
         | r # rs \<Rightarrow> if re_word c = re_word (hd r) then (c # r) # rs else [c] # r # rs)) s []"

definition re_sub_word :: "string \<Rightarrow> string \<Rightarrow> string \<Rightarrow> string" where
  "re_sub_word long_var short_var equations =
     concat (map (\<lambda>r. if r = long_var then short_var else r) (word_runs equations))"

text \<open>
  The dict comprehension \<open>{var: unused_chars.pop(0) for var in long_var_names}\<close>:
  \<open>pop(0)\<close> of an empty list raises \<open>IndexError\<close>.
\<close>

fun assign_chars :: "string list \<Rightarrow> string list \<Rightarrow> py_exception + (string \<times> string) list" where
  "assign_chars [] unused_chars = Inr []"
| "assign_chars (var # vars) [] = Inl IndexError"
| "assign_chars (var # vars) (u # unused_chars) =
     (case assign_chars vars unused_chars of
        Inl e \<Rightarrow> Inl e
      | Inr m \<Rightarrow> Inr ((var, u) # m))"

definition var_names_of :: "(string list \<Rightarrow> string list) \<Rightarrow> string \<Rightarrow> string list" where
  "var_names_of it equations = it (re_findall_ident False equations)"

definition long_var_names_of :: "(string list \<Rightarrow> string list) \<Rightarrow> string \<Rightarrow> string list" where
  "long_var_names_of it equations = filter (\<lambda>var. length var > 1) (var_names_of it equations)"

definition unused_chars_of :: "(string list \<Rightarrow> string list) \<Rightarrow> string \<Rightarrow> string list" where
  "unused_chars_of it equations =
     filter (\<lambda>u. u \<notin> set (var_names_of it equations))
       (map (\<lambda>c. [c]) ''abcdefghijklmnopqrstuvwxyz'')"

definition simplify_variables ::
  "(string list \<Rightarrow> string list) \<Rightarrow> string \<Rightarrow> py_exception + (string \<times> (string \<times> string) list)" where
  "simplify_variables it equations =
     (case assign_chars (long_var_names_of it equations) (unused_chars_of it equations) of
        Inl e \<Rightarrow> Inl e
      | Inr var_mapping \<Rightarrow>
          Inr (foldl (\<lambda>eqs (long_var, short_var). re_sub_word long_var short_var eqs)
                 equations var_mapping,
               var_mapping))"

subsection \<open>\<open>get_final_using_sympy\<close>\<close>

datatype solver_result = Float pyfloat | Tag string

text \<open>The sanity guard: three consecutive alphabetic characters.\<close>

fun three_alpha :: "string \<Rightarrow> bool" where
  "three_alpha (a # b # c # rest) =
     ((py_isalpha a \<and> py_isalpha b \<and> py_isalpha c) \<or> three_alpha (b # c # rest))"
| "three_alpha rest = False"

text \<open>
  The last loop, over all equations but the last, with \<open>goal_expression_list\<close> as an
  argument. An equation without \<open>=\<close> raises \<open>IndexError\<close> at \<open>sub_eqs_split[1]\<close>, inside
  the \<open>try\<close> that answers \<open>invalid equations\<close>.
\<close>

fun solve_loop :: "'e solver_env \<Rightarrow> string \<Rightarrow> 'e list \<Rightarrow> string list \<Rightarrow> solver_result" where
  "solve_loop env goal_var goal_expression_list [] = Tag ''no solution''"
| "solve_loop env goal_var goal_expression_list (sub_eqs # rest) =
     (if CHR ''?'' \<in> set sub_eqs then solve_loop env goal_var goal_expression_list rest
      else
        (let sub_eqs_split = py_split CHR ''='' sub_eqs in
         if length sub_eqs_split < 2 then Tag ''invalid equations''
         else
           (case parse_expr env
                   (py_strip (sub_eqs_split ! 0) @ '' - ('' @ py_strip (sub_eqs_split ! 1) @ '')'') of
              Inl e \<Rightarrow> Tag ''invalid equations''
            | Inr parsed \<Rightarrow>
                (case sympify env parsed of
                   Inl e \<Rightarrow> Tag ''invalid equations''
                 | Inr expr \<Rightarrow>
                     (let goal_expression_list' = goal_expression_list @ [expr] in
                      case solve_for env goal_expression_list' goal_var of
                        Inr v \<Rightarrow> Float v
                      | Inl e \<Rightarrow>
                          (case solve_first_for env goal_expression_list' goal_var of
                             Inr v \<Rightarrow> Float v
                           | Inl e' \<Rightarrow>
                               solve_loop env goal_var goal_expression_list' rest))))))"

text \<open>
  The part after goal detection: the single-equation shortcut, \<open>no goal found\<close>, and the
  loop.
\<close>

definition solve_tail ::
  "'e solver_env \<Rightarrow> string list \<Rightarrow> string option \<Rightarrow> 'e list \<Rightarrow> solver_result" where
  "solve_tail env equation_list goal_var goal_expression_list =
     (if length equation_list = 1 then
        (case parse_expr env (hd (py_split CHR ''='' (equation_list ! 0))) of
           Inl e \<Rightarrow> Tag ''invalid equations''
         | Inr parsed \<Rightarrow>
             (case sympify env parsed of
                Inl e \<Rightarrow> Tag ''invalid equations''
              | Inr expr \<Rightarrow>
                  (case float_of env expr of
                     Inl e \<Rightarrow> Tag ''invalid equations''
                   | Inr v \<Rightarrow> Float v)))
      else
        (case goal_var of
           None \<Rightarrow> Tag ''no goal found''
         | Some g \<Rightarrow> solve_loop env g goal_expression_list (butlast equation_list)))"

text \<open>
  The body of the outer \<open>try\<close>: \<open>Inl\<close> is an exception that reaches the outer \<open>except\<close>
  (from \<open>simplify_variables\<close>, or from parsing the goal expression, which no inner \<open>try\<close>
  covers).
\<close>

definition solve_body :: "'e solver_env \<Rightarrow> string \<Rightarrow> py_exception + solver_result" where
  "solve_body env equations0 =
     (case simplify_variables (set_iter env) equations0 of
        Inl e \<Rightarrow> Inl e
      | Inr (equations, var_mapping) \<Rightarrow>
          if equations = ''nan'' then Inr (Float NaN)
          else
            (let equation_list = py_split CHR '','' equations in
             if list_ex three_alpha equation_list then Inr (Tag ''invalid equations'')
             else
               (let last_eq = last equation_list;
                    lhs = py_strip (hd (py_split CHR ''='' last_eq))
                in if str_isalpha lhs \<or> length lhs = 2
                   then Inr (solve_tail env equation_list (Some lhs) [])
                   else if CHR ''='' \<in> set last_eq then
                     (case find (\<lambda>l. l \<notin> set last_eq)
                             (''abcdefghijklmnopqrstuvwxyz'' @ ''ABCDEFGHIJKLMNOPQRSTUVWXYZ'') of
                        None \<Rightarrow> Inr (Tag ''invalid equations'')
                      | Some l \<Rightarrow>
                          (case parse_expr env ([l] @ '' - ('' @ lhs @ '')'') of
                             Inl e \<Rightarrow> Inl e
                           | Inr parsed \<Rightarrow>
                               (case sympify env parsed of
                                  Inl e \<Rightarrow> Inl e
                                | Inr goal_expression \<Rightarrow>
                                    (case solve_first env goal_expression of
                                       Inr v \<Rightarrow> Inr (Float v)
                                     | Inl e \<Rightarrow>
                                         Inr (solve_tail env equation_list (Some [l])
                                                [goal_expression])))))
                   else Inr (solve_tail env equation_list None []))))"

text \<open>The outer \<open>except Exception\<close> answers \<open>bug\<close>.\<close>

definition get_final_using_sympy :: "'e solver_env \<Rightarrow> string \<Rightarrow> py_exception + solver_result" where
  "get_final_using_sympy env equations =
     (case solve_body env equations of
        Inl e \<Rightarrow> Inr (Tag ''bug'')
      | Inr r \<Rightarrow> Inr r)"

text \<open>The results the contract allows: a float, or one of the four failure tags.\<close>

definition failure_tags :: "string set" where
  "failure_tags = {''invalid equations'', ''no goal found'', ''no solution'', ''bug''}"

definition is_outcome :: "solver_result \<Rightarrow> bool" where
  "is_outcome r \<longleftrightarrow> (\<exists>x. r = Float x) \<or> (\<exists>t \<in> failure_tags. r = Tag t)"

subsection \<open>A stand-in for SymPy on atoms\<close>

text \<open>
  For evaluating the solver on a concrete input, \<open>atoms_env\<close> is an environment that knows
  only atoms: \<open>parse_expr\<close> reads an identifier as a symbol and a decimal numeral as a number
  and rejects every other text; \<open>float\<close> of a number is the number and \<open>float\<close> of a symbol
  raises \<open>TypeError\<close>, as SymPy's does (\<open>Cannot convert expression to float\<close>); the
  \<open>solve\<close> expressions raise; a set is iterated in the order of \<open>remdups\<close>.
\<close>

datatype atom = Number pyfloat | Symbol string

definition parse_atom :: "string \<Rightarrow> py_exception + atom" where
  "parse_atom s =
     (let t = py_strip s in
      if t \<noteq> [] \<and> ident_start (hd t) \<and> list_all re_word t then Inr (Symbol t)
      else (case py_float t of Inr x \<Rightarrow> Inr (Number x) | Inl e \<Rightarrow> Inl SyntaxError))"

definition float_of_atom :: "atom \<Rightarrow> py_exception + pyfloat" where
  "float_of_atom a = (case a of Number x \<Rightarrow> Inr x | Symbol n \<Rightarrow> Inl TypeError)"

definition atoms_env :: "atom solver_env" where
  "atoms_env =
     \<lparr>parse_expr = parse_atom, sympify = Inr, float_of = float_of_atom,
      solve_first = (\<lambda>e. Inl OtherException),
      solve_for = (\<lambda>es g. Inl OtherException),
      solve_first_for = (\<lambda>es g. Inl OtherException),
      set_iter = remdups\<rparr>"

section \<open>External collaborators: the code executor and the generation engine\<close>

text \<open>
  What a call of \<open>subprocess.run\<close> does: the process completes with a return code and its
  standard output, or the call raises (\<open>TimeoutExpired\<close> when the timeout passes, or
  another exception).
\<close>

datatype proc_outcome = Completed int string | Raised py_exception

subsection \<open>\<open>run_code_with_subprocess_timeout\<close> (\<open>program_aided_lm.py\<close>)\<close>

text \<open>
  The world of the executor: whether writing the temporary script raises, what running it
  does, whether removing it raises. The script is written before the \<open>try\<close>, and removed
  in the \<open>finally\<close>, so an exception of either leaves the function.
\<close>

record sandbox =
  write_script :: "string \<Rightarrow> py_exception option"
  subprocess_run :: "string \<Rightarrow> nat \<Rightarrow> proc_outcome"
  remove_script :: "py_exception option"

definition run_code_with_subprocess_timeout ::
  "sandbox \<Rightarrow> string \<Rightarrow> nat \<Rightarrow> py_exception + string" where
  "run_code_with_subprocess_timeout sb code0 timeout =
     (let code = code0 @ [CHR 0x0A] @ ''print(solution())'' in
      case write_script sb code of
        Some e \<Rightarrow> Inl e
      | None \<Rightarrow>
          (let result =
             (case subprocess_run sb code timeout of
                Completed returncode stdout \<Rightarrow>
                  if returncode = 0 then py_strip stdout else ''bug''
              | Raised e \<Rightarrow> ''bug'')
           in case remove_script sb of
                Some e \<Rightarrow> Inl e
              | None \<Rightarrow> Inr result))"

subsection \<open>\<open>run_llm\<close> (\<open>utils/v2\<close> and \<open>utils/v3\<close>)\<close>

text \<open>
  \<open>s.replace(old, '')\<close>: the occurrences of \<open>old\<close>, found from the left without overlap,
  are removed (\<open>skip\<close> counts the characters of an occurrence still to drop); an empty
  \<open>old\<close> changes nothing. \<open>s.split(sep)\<close> for a non-empty string \<open>sep\<close> likewise.
\<close>

fun py_remove :: "string \<Rightarrow> nat \<Rightarrow> string \<Rightarrow> string" where
  "py_remove old skip [] = []"
| "py_remove old (Suc skip) (c # cs) = py_remove old skip cs"
| "py_remove old 0 (c # cs) =
     (if old \<noteq> [] \<and> take (length old) (c # cs) = old
      then py_remove old (length old - 1) cs
      else c # py_remove old 0 cs)"

fun py_split_str :: "string \<Rightarrow> nat \<Rightarrow> string \<Rightarrow> string \<Rightarrow> string list" where
  "py_split_str sep skip cur [] = [rev cur]"
| "py_split_str sep (Suc skip) cur (c # cs) = py_split_str sep skip cur cs"
| "py_split_str sep 0 cur (c # cs) =
     (if take (length sep) (c # cs) = sep
      then rev cur # py_split_str sep (length sep - 1) [] cs
      else py_split_str sep 0 (c # cur) cs)"

text \<open>
  The world of the generation engine, per iteration: the in-process call
  \<open>llm(...)['choices'][0]['text']\<close> returns a text or raises; on the other path the prompt
  file is written, the binary is run and the file is removed, each of which may raise.
\<close>

record engine =
  llm :: "nat \<Rightarrow> string \<Rightarrow> py_exception + string"
  write_prompt :: "nat \<Rightarrow> string \<Rightarrow> py_exception option"
  run_main :: "nat \<Rightarrow> string \<Rightarrow> proc_outcome"
  remove_prompt :: "nat \<Rightarrow> py_exception option"

text \<open>One iteration of the loop of \<open>run_llm\<close> of \<open>utils/v2\<close>: the text it appends.\<close>

definition run_llm_iteration :: "engine \<Rightarrow> string \<Rightarrow> bool \<Rightarrow> nat \<Rightarrow> string" where
  "run_llm_iteration eng message cpp iteration =
     (if \<not> cpp then
        (case llm eng iteration message of
           Inr text \<Rightarrow> py_strip text
         | Inl e \<Rightarrow> ''-1'')
      else
        (case write_prompt eng iteration message of
           Some e \<Rightarrow> ''-1''
         | None \<Rightarrow>
             (case run_main eng iteration message of
                Raised e \<Rightarrow> ''-1''
              | Completed returncode stdout \<Rightarrow>
                  (let stdout' = py_strip (py_remove ''Q:'' 0 (py_remove message 0 stdout)) in
                   case remove_prompt eng iteration of
                     Some e \<Rightarrow> ''-1''
                   | None \<Rightarrow> if returncode = 0 then stdout' else ''-1''))))"

definition run_llm :: "nat \<Rightarrow> engine \<Rightarrow> string \<Rightarrow> bool \<Rightarrow> bool \<Rightarrow> string list" where
  "run_llm N_ITERATIONS eng message cpp decider =
     (let iterations = (if decider then 1 else N_ITERATIONS)
      in map (run_llm_iteration eng message cpp) [0..<iterations])"

text \<open>\<open>run_llm\<close> of \<open>utils/v3\<close>, which runs one iteration and returns its text.\<close>

definition run_llm_v3 :: "engine \<Rightarrow> string \<Rightarrow> bool \<Rightarrow> nat \<Rightarrow> string" where
  "run_llm_v3 eng message cpp iteration =
     (if \<not> cpp then
        (case llm eng iteration message of
           Inr text \<Rightarrow> py_strip text
         | Inl e \<Rightarrow> ''bug'')
      else
        (case write_prompt eng iteration message of
           Some e \<Rightarrow> ''bug''
         | None \<Rightarrow>
             (case run_main eng iteration message of
                Raised e \<Rightarrow> ''bug''
              | Completed returncode stdout \<Rightarrow>
                  (let stdout' = py_strip (py_remove ''Q:'' 0 (py_remove message 0
                                   (last (py_split_str ''<|assistant|>'' 0 [] stdout)))) in
                   case remove_prompt eng iteration of
                     Some e \<Rightarrow> ''bug''
                   | None \<Rightarrow> if returncode = 0 then stdout' else ''bug''))))"

text \<open>
  An engine that fails: the in-process call raises, and the binary exits with code 1.
\<close>

definition failing_engine :: engine where
  "failing_engine =
     \<lparr>llm = (\<lambda>i m. Inl OtherException), write_prompt = (\<lambda>i m. None),
      run_main = (\<lambda>i m. Completed 1 []), remove_prompt = (\<lambda>i. None)\<rparr>"

chapter \<open>Properties\<close>

section \<open>Properties of the numeric canonicalizer\<close>

lemma scan_alphabet:
  "set (scan fd acc cs) \<subseteq> set acc \<union> {c. py_isdigit c \<or> c = CHR ''.'' \<or> c = CHR ''-''}"
proof (induction cs arbitrary: fd acc)
  case Nil
  then show ?case by simp
next
  case (Cons c cs)
  show ?case
    using Cons [of True "acc @ [c]"] Cons [of fd acc]
    by (auto split: if_splits)
qed

lemma float_unsigned_only_ValueError: "float_unsigned neg s = Inl e \<Longrightarrow> e = ValueError"
  unfolding float_unsigned_def Let_def by (simp split: if_splits)

lemma py_float_only_ValueError: "py_float s = Inl e \<Longrightarrow> e = ValueError"
  unfolding py_float_def
  by (simp split: list.splits if_splits) (blast dest: float_unsigned_only_ValueError)+

lemma extract_and_format_value_total: "\<exists>r. extract_and_format_value s = Inr r"
proof (cases "py_float (filter (\<lambda>c. c \<noteq> CHR '','') (numeric_part s))")
  case (Inl e)
  then have "e = ValueError" by (rule py_float_only_ValueError)
  with Inl show ?thesis by (simp add: extract_and_format_value_def)
next
  case (Inr x)
  then show ?thesis by (simp add: extract_and_format_value_def)
qed

lemma scan_run:
  assumes "\<forall>c\<in>set u. py_isdigit c \<or> c = CHR ''.''"
  shows "scan True acc (u @ rest) = scan True (acc @ u) rest"
  using assms by (induction u arbitrary: acc) auto

lemma scan_halt:
  assumes "rest = [] \<or> (\<not> py_isdigit (hd rest) \<and> hd rest \<notin> {CHR ''.'', CHR '','', CHR ''-''})"
  shows "scan True acc rest = acc"
  using assms by (cases rest) auto

lemma numeric_part_token:
  assumes "t \<noteq> []" and "py_isdigit (last t)"
    and "\<forall>c\<in>set t. py_isdigit c \<or> c = CHR ''.''"
    and "p = [] \<or> (\<not> py_isdigit (last p) \<and> last p \<notin> {CHR ''.'', CHR '','', CHR ''-''})"
  shows "numeric_part (p @ t) = t"
proof -
  obtain d u where rt: "rev t = d # u"
    using assms(1) by (cases "rev t") auto
  then have d: "d = last t" using assms(1) by (metis last_rev list.sel(1) rev_rev_ident hd_rev)
  have u: "\<forall>c\<in>set u. py_isdigit c \<or> c = CHR ''.''"
    using assms(3) rt by (metis list.set_intros(2) set_rev)
  have halt: "rev p = [] \<or> (\<not> py_isdigit (hd (rev p)) \<and> hd (rev p) \<notin> {CHR ''.'', CHR '','', CHR ''-''})"
    using assms(4) by (cases "p = []") (simp_all add: hd_rev)
  have "rev (p @ t) = d # (u @ rev p)"
    using rt by simp
  moreover have "py_isdigit d" using d assms(2) by simp
  ultimately have "scan False [] (rev (p @ t)) = scan True [d] (u @ rev p)"
    by simp
  also have "\<dots> = scan True ([d] @ u) (rev p)"
    using u by (rule scan_run)
  also have "\<dots> = [d] @ u"
    using halt by (rule scan_halt)
  finally show ?thesis
    using rt by (simp add: numeric_part_def rev_swap)
qed

lemma dropWhile_none: "\<forall>c\<in>set t. \<not> P c \<Longrightarrow> dropWhile P t = t"
  by (cases t) auto

lemma py_strip_no_space: "\<forall>c\<in>set t. \<not> py_isspace c \<Longrightarrow> py_strip t = t"
  by (simp add: py_strip_def dropWhile_none)

lemma space_not_digit_or_point: "py_isspace c \<Longrightarrow> \<not> py_isdigit c \<and> c \<noteq> CHR ''.''"
  unfolding py_isspace_def by (elim insertE emptyE; simp add: py_isdigit_def ascii_digit_def)

lemma digit_or_point_not_space: "py_isdigit c \<or> c = CHR ''.'' \<Longrightarrow> \<not> py_isspace c"
  using space_not_digit_or_point by blast

lemma ascii_digit_not_point: "ascii_digit c \<Longrightarrow> c \<noteq> CHR ''.''"
  by (auto simp: ascii_digit_def)

lemma comma_not_digit_or_point: "c = CHR '','' \<Longrightarrow> \<not> (py_isdigit c \<or> c = CHR ''.'')"
  by (simp add: py_isdigit_def ascii_digit_def)

lemma float_unsigned_Inr_points:
  assumes "float_unsigned neg t = Inr x"
  shows "count_list t CHR ''.'' \<le> 1"
proof -
  let ?ip = "takeWhile ascii_digit t" and ?rest = "dropWhile ascii_digit t"
  have t: "t = ?ip @ ?rest" by simp
  have ip0: "count_list ?ip CHR ''.'' = 0"
    by (auto simp: count_list_0_iff dest!: set_takeWhileD ascii_digit_not_point)
  show ?thesis
  proof (cases "?rest = []")
    case True
    then have "t = ?ip" by (metis append_Nil2 takeWhile_dropWhile_id)
    with ip0 show ?thesis by (metis le0)
  next
    case False
    with assms have all: "list_all ascii_digit (tl ?rest)"
      by (auto simp: float_unsigned_def Let_def split: if_splits)
    then have "count_list (tl ?rest) CHR ''.'' = 0"
      by (auto simp: count_list_0_iff list_all_iff dest!: ascii_digit_not_point)
    moreover obtain r where "?rest = r # tl ?rest"
      using False by (cases ?rest) auto
    ultimately have "count_list ?rest CHR ''.'' \<le> 1"
      using count_list.simps(2) [of r "tl ?rest" "CHR ''.''"] by (simp split: if_splits)
    moreover have "count_list t CHR ''.'' = count_list ?ip CHR ''.'' + count_list ?rest CHR ''.''"
      by (metis count_list_append takeWhile_dropWhile_id)
    ultimately show ?thesis
      using ip0 by simp
  qed
qed

lemma py_float_two_points:
  assumes "\<forall>c\<in>set t. py_isdigit c \<or> c = CHR ''.''" and "2 \<le> count_list t CHR ''.''"
  shows "py_float t = Inl ValueError"
proof -
  have strip: "py_strip t = t"
    using assms(1) digit_or_point_not_space by (intro py_strip_no_space) blast
  obtain c cs where t: "t = c # cs"
    using assms(2) by (cases t) auto
  have c: "c \<noteq> CHR ''-''" "c \<noteq> CHR ''+''"
    using assms(1) t by (auto simp: py_isdigit_def ascii_digit_def)
  have "py_float t = float_unsigned False t"
    using strip t c by (simp add: py_float_def)
  moreover have "float_unsigned False t \<noteq> Inr x" for x
    using float_unsigned_Inr_points [of False t x] assms(2) by auto
  ultimately show ?thesis
    by (cases "float_unsigned False t") (auto dest: float_unsigned_only_ValueError)
qed

lemma scan_no_digit:
  assumes "\<forall>c\<in>set cs. \<not> py_isdigit c"
  shows "scan False [] cs = []"
  using assms by (induction cs) simp_all

lemma py_float_empty: "py_float [] = Inl ValueError"
  by (simp add: py_float_def py_strip_def)

text \<open>
  Claim C3. A string in which no character is a digit (no character satisfies
  \<open>str.isdigit\<close>) canonicalizes to the sentinel \<open>bug\<close>, and the call returns (no exception
  leaves it): the flag \<open>found_digit\<close> is never set, nothing is accumulated, and \<open>float\<close> of
  the empty string raises \<open>ValueError\<close>, which is caught.
\<close>

theorem extract_and_format_value_no_digit:
  assumes "\<forall>c\<in>set s. \<not> py_isdigit c"
  shows "extract_and_format_value s = Inr ''bug''"
proof -
  have "scan False [] (rev s) = []"
    using assms by (intro scan_no_digit) simp
  then have "numeric_part s = []"
    by (simp add: numeric_part_def)
  then show ?thesis
    by (simp add: extract_and_format_value_def py_float_empty)
qed

text \<open>The spec's example \<open>no numbers here\<close>.\<close>

theorem extract_and_format_value_no_digit_witness:
  "extract_and_format_value ''no numbers here'' = Inr ''bug''"
  using extract_and_format_value_no_digit [of "''no numbers here''"]
  by (simp add: py_isdigit_def ascii_digit_def)

text \<open>
  Claim C4, as the code has it. The scan keeps no count of decimal points: every \<open>.\<close> met
  after a digit is accumulated. For a trailing token \<open>t\<close> made of digits and points and ending
  in a digit, preceded by nothing or by a character that halts the scan, the accumulated
  fragment is the whole token; when the token holds two points or more, \<open>float\<close> rejects
  it and the result is \<open>bug\<close>.
\<close>

theorem scan_accumulates_every_point:
  assumes "t \<noteq> []" and "py_isdigit (last t)"
    and "\<forall>c\<in>set t. py_isdigit c \<or> c = CHR ''.''"
    and "p = [] \<or> (\<not> py_isdigit (last p) \<and> last p \<notin> {CHR ''.'', CHR '','', CHR ''-''})"
  shows "numeric_part (p @ t) = t
    \<and> (2 \<le> count_list t CHR ''.'' \<longrightarrow> extract_and_format_value (p @ t) = Inr ''bug'')"
proof -
  have np: "numeric_part (p @ t) = t"
    using assms by (rule numeric_part_token)
  have nocomma: "filter (\<lambda>c. c \<noteq> CHR '','') t = t"
    using assms(3) comma_not_digit_or_point by (subst filter_id_conv) blast
  have "extract_and_format_value (p @ t) = Inr ''bug''" if "2 \<le> count_list t CHR ''.''"
    using py_float_two_points [OF assms(3) that] np nocomma
    by (simp add: extract_and_format_value_def)
  with np show ?thesis by simp
qed

text \<open>The token \<open>1.2.3\<close> after the word \<open>version\<close>.\<close>

theorem scan_accumulates_every_point_witness:
  "numeric_part ''version 1.2.3'' = ''1.2.3''
    \<and> extract_and_format_value ''version 1.2.3'' = Inr ''bug''"
  using scan_accumulates_every_point [of "''1.2.3''" "''version ''"]
  by (simp add: py_isdigit_def ascii_digit_def)

text \<open>
  Claim C4 as stated fails: on \<open>1.2.3\<close> the fragment is not \<open>2.3\<close> and the result is not
  \<open>2.30\<close> but \<open>bug\<close>.
\<close>

theorem single_point_counterexample:
  "numeric_part ''1.2.3'' \<noteq> ''2.3''
    \<and> extract_and_format_value ''1.2.3'' \<noteq> Inr ''2.30''
    \<and> extract_and_format_value ''1.2.3'' = Inr ''bug''"
  by code_simp

section \<open>Idempotence of the numeric canonicalizer\<close>

lemma rhe_cases:
  fixes x :: rat
  obtains (down) "round_half_even x = \<lfloor>x\<rfloor>" "x - of_int \<lfloor>x\<rfloor> \<le> 1 / 2"
    | (up) "round_half_even x = \<lfloor>x\<rfloor> + 1" "1 / 2 \<le> x - of_int \<lfloor>x\<rfloor>"
  unfolding round_half_even_def Let_def
  by (cases "x - of_int \<lfloor>x\<rfloor> < 1 / 2"; cases "1 / 2 < x - of_int \<lfloor>x\<rfloor>"; cases "even \<lfloor>x\<rfloor>") auto

lemma rhe_error:
  fixes x :: rat
  shows "\<bar>of_int (round_half_even x) - x\<bar> \<le> 1 / 2"
proof (cases x rule: rhe_cases)
  case down
  have "of_int \<lfloor>x\<rfloor> \<le> x" by simp
  with down show ?thesis by simp
next
  case up
  have "x < of_int \<lfloor>x\<rfloor> + 1" by linarith
  with up show ?thesis by simp
qed

lemma rhe_nearest:
  fixes x :: rat
  shows "\<bar>of_int (round_half_even x) - x\<bar> \<le> \<bar>of_int n - x\<bar>"
proof (rule ccontr)
  assume "\<not> ?thesis"
  then have lt: "\<bar>of_int n - x\<bar> < \<bar>of_int (round_half_even x) - x\<bar>" by simp
  with rhe_error [of x] have "\<bar>of_int n - x\<bar> < 1 / 2" by linarith
  with rhe_error [of x] have "\<bar>(of_int n :: rat) - of_int (round_half_even x)\<bar> < 1"
    by linarith
  then have "\<bar>n - round_half_even x\<bar> < 1"
    by (metis of_int_abs of_int_diff of_int_less_1_iff)
  then have "n = round_half_even x" by linarith
  with lt show False by simp
qed

lemma rhe_of_int [simp]: "round_half_even (of_int n) = n"
  by (simp add: round_half_even_def)

lemma rhe_ge:
  fixes x :: rat
  assumes "of_int n \<le> x"
  shows "n \<le> round_half_even x"
proof -
  have "(of_int n :: rat) - 1 / 2 \<le> of_int (round_half_even x)"
    using rhe_error [of x] assms by linarith
  then have "(of_int n :: rat) - 1 < of_int (round_half_even x)" by linarith
  then have "(of_int (n - 1) :: rat) < of_int (round_half_even x)" by simp
  then have "n - 1 < round_half_even x" using of_int_less_iff by blast
  then show ?thesis by linarith
qed

lemma rhe_le:
  fixes x :: rat
  assumes "x \<le> of_int n"
  shows "round_half_even x \<le> n"
proof -
  have "of_int (round_half_even x) \<le> (of_int n :: rat) + 1 / 2"
    using rhe_error [of x] assms by linarith
  then have "of_int (round_half_even x) < (of_int (n + 1) :: rat)" by simp
  then have "round_half_even x < n + 1" using of_int_less_iff by blast
  then show ?thesis by linarith
qed

lemma rhe_half_up:
  fixes c :: int
  shows "round_half_even (of_int c + 1 / 2) = (if even c then c else c + 1)"
proof -
  have "\<lfloor>(of_int c :: rat) + 1 / 2\<rfloor> = c" by linarith
  then show ?thesis by (simp add: round_half_even_def)
qed

lemma rhe_half_down:
  fixes c :: int
  shows "round_half_even (of_int c - 1 / 2) = (if even c then c else c - 1)"
proof -
  have f: "\<lfloor>(of_int c :: rat) - 1 / 2\<rfloor> = c - 1" by linarith
  show ?thesis by (simp add: round_half_even_def f)
qed

lemma rhe_close:
  fixes y :: rat
  assumes "\<bar>y - of_int c\<bar> < 1 / 2"
  shows "round_half_even y = c"
proof -
  have "\<bar>(of_int (round_half_even y) :: rat) - of_int c\<bar> < 1"
    using rhe_error [of y] assms by linarith
  then have "\<bar>round_half_even y - c\<bar> < 1"
    by (metis of_int_abs of_int_diff of_int_less_1_iff)
  then show ?thesis by linarith
qed

lemma rhe_stable:
  fixes x y :: rat
  assumes "round_half_even x = c" and "\<bar>y - of_int c\<bar> \<le> \<bar>x - of_int c\<bar>"
  shows "round_half_even y = c"
proof (cases "\<bar>y - of_int c\<bar> < 1 / 2")
  case True
  then show ?thesis by (rule rhe_close)
next
  case False
  have xe: "\<bar>x - of_int c\<bar> \<le> 1 / 2"
    using rhe_error [of x] assms(1) by (simp add: abs_minus_commute)
  with False assms(2) have ye: "\<bar>y - of_int c\<bar> = 1 / 2" and xe': "\<bar>x - of_int c\<bar> = 1 / 2"
    by linarith+
  have "even c"
  proof -
    from xe' consider "x = of_int c + 1 / 2" | "x = of_int c - 1 / 2" by (auto simp: abs_if split: if_splits) 
    then show ?thesis
    proof cases
      case 1
      with assms(1) show ?thesis by (simp add: rhe_half_up split: if_splits)
    next
      case 2
      with assms(1) show ?thesis by (simp add: rhe_half_down split: if_splits)
    qed
  qed
  from ye consider "y = of_int c + 1 / 2" | "y = of_int c - 1 / 2" by (auto simp: abs_if split: if_splits)
  then show ?thesis
    using \<open>even c\<close> by cases (simp_all add: rhe_half_up rhe_half_down)
qed

lemma double_of_rat_alt:
  "double_of_rat neg q =
     (if q = 0 then Finite neg 0
      else if 2 ^ 1024 \<le> nearest_double q then Infinity neg
      else Finite neg (nearest_double q))"
  by (simp add: double_of_rat_def nearest_double_def quantum_def Let_def)

lemma bitlen_powi:
  assumes "0 < a"
  shows "(2::rat) powi (bitlen a - 1) \<le> of_int a" and "of_int a < (2::rat) powi (bitlen a)"
proof -
  have b1: "1 \<le> bitlen a" using assms by (auto simp: bitlen_alt_def)
  from bitlen_bounds [OF assms]
  have lo: "2 ^ nat (bitlen a - 1) \<le> a" and hi: "a < 2 ^ nat (bitlen a)" by simp_all
  have "(2::rat) powi (bitlen a - 1) = 2 ^ nat (bitlen a - 1)"
    using b1 by (simp add: power_int_def)
  also have "\<dots> = of_int (2 ^ nat (bitlen a - 1))" by simp
  also have "\<dots> \<le> of_int a" using lo by (simp only: of_int_le_iff)
  finally show "(2::rat) powi (bitlen a - 1) \<le> of_int a" .
  have "(of_int a :: rat) < of_int (2 ^ nat (bitlen a))"
    using hi by (simp only: of_int_less_iff)
  also have "\<dots> = 2 ^ nat (bitlen a)" by simp
  also have "\<dots> = (2::rat) powi (bitlen a)"
    using b1 by (simp add: power_int_def)
  finally show "of_int a < (2::rat) powi (bitlen a)" .
qed

lemma floor_log2_bounds:
  assumes "0 < q"
  shows "2 powi (floor_log2 q) \<le> q" and "q < 2 powi (floor_log2 q + 1)"
proof -
  obtain a b where ab: "quotient_of q = (a, b)" by (cases "quotient_of q")
  then have b: "0 < b" by (rule quotient_of_denom_pos)
  have q: "q = of_int a / of_int b" using ab by (rule quotient_of_div)
  have a: "0 < a"
    using assms b unfolding q by (simp add: zero_less_divide_iff)
  define k where "k = bitlen a - bitlen b"
  have fl: "floor_log2 q = (if 2 powi k \<le> q then k else k - 1)"
    by (simp add: floor_log2_def ab k_def)
  have bpos: "(0::rat) < of_int b" using b by simp
  have up: "q < 2 powi (k + 1)"
  proof -
    have "of_int a < (2::rat) powi (bitlen a)" using a by (rule bitlen_powi)
    also have "\<dots> = 2 powi (k + 1) * 2 powi (bitlen b - 1)"
      by (simp add: k_def flip: power_int_add)
    also have "\<dots> \<le> 2 powi (k + 1) * of_int b"
      using bitlen_powi(1) [OF b] by (intro mult_left_mono) simp_all
    finally show ?thesis
      unfolding q using bpos by (simp add: pos_divide_less_eq)
  qed
  have low: "2 powi (k - 1) \<le> q"
  proof -
    have "(2::rat) powi (k - 1) * of_int b \<le> 2 powi (k - 1) * 2 powi (bitlen b)"
      using bitlen_powi(2) [OF b] by (intro mult_left_mono) simp_all
    also have "\<dots> = 2 powi (bitlen a - 1)"
      by (simp add: k_def flip: power_int_add)
    also have "\<dots> \<le> of_int a" using a by (rule bitlen_powi)
    finally show ?thesis
      unfolding q using bpos by (simp add: pos_le_divide_eq)
  qed
  show "2 powi (floor_log2 q) \<le> q"
    using low by (simp add: fl)
  show "q < 2 powi (floor_log2 q + 1)"
    using up by (auto simp: fl not_le)
qed

lemma quantum_pos: "0 < quantum q"
  by (simp add: quantum_def)

lemma nearest_double_nonneg:
  assumes "0 \<le> q"
  shows "0 \<le> nearest_double q"
proof -
  have "0 \<le> q / quantum q" using assms quantum_pos [of q] by simp
  then have "0 \<le> round_half_even (q / quantum q)"
    using rhe_ge [of 0 "q / quantum q"] by simp
  then show ?thesis
    using quantum_pos [of q] by (simp add: nearest_double_def)
qed

text \<open>The rounding is nearest among the multiples of the quantum.\<close>

lemma nearest_double_grid:
  "\<bar>nearest_double q - q\<bar> \<le> \<bar>of_int n * quantum q - q\<bar>"
proof -
  let ?g = "quantum q"
  have g: "0 < ?g" by (rule quantum_pos)
  have "\<bar>of_int (round_half_even (q / ?g)) - q / ?g\<bar> \<le> \<bar>of_int n - q / ?g\<bar>"
    by (rule rhe_nearest)
  then have "\<bar>of_int (round_half_even (q / ?g)) - q / ?g\<bar> * ?g \<le> \<bar>of_int n - q / ?g\<bar> * ?g"
    using g by (intro mult_right_mono) simp_all
  moreover have "\<bar>x - q / ?g\<bar> * ?g = \<bar>x * ?g - q\<bar>" for x
  proof -
    have "\<bar>x - q / ?g\<bar> * ?g = \<bar>(x - q / ?g) * ?g\<bar>"
      using g by (simp add: abs_mult)
    also have "(x - q / ?g) * ?g = x * ?g - q"
      using g by (simp add: field_simps)
    finally show ?thesis .
  qed
  ultimately show ?thesis
    by (simp add: nearest_double_def)
qed

lemma powi_split: "(2::rat) powi (a + b) = 2 powi a * 2 powi b"
  by (simp add: power_int_add)

lemma powi_nonneg_int:
  assumes "0 \<le> d"
  shows "(2::rat) powi d = of_int (2 ^ nat d)"
  using assms by (simp add: power_int_def)

lemma quantum_exponent:
  "quantum q = 2 powi (max (floor_log2 q - 52) (- 1074))"
  by (rule quantum_def)

lemma nearest_double_is_double:
  assumes "0 \<le> q"
  shows "is_double (nearest_double q)"
proof (cases "q = 0")
  case True
  have "round_half_even 0 = 0" using rhe_of_int [of 0] by simp
  then have "nearest_double 0 = of_int 0 * 2 powi 0"
    by (simp add: nearest_double_def)
  then show ?thesis
    unfolding True is_double_def by (intro exI [of _ 0]) simp
next
  case False
  with assms have q: "0 < q" by simp
  define e where "e = max (floor_log2 q - 52) (- 1074)"
  define m where "m = round_half_even (q / 2 powi e)"
  have g: "quantum q = 2 powi e" by (simp add: quantum_def e_def)
  have "q < 2 powi (floor_log2 q + 1)" using q by (rule floor_log2_bounds)
  also have "\<dots> \<le> 2 powi (e + 53)"
    by (intro power_int_increasing) (simp_all add: e_def)
  also have "\<dots> = 2 powi e * 2 ^ 53"
    by (simp add: powi_split)
  finally have "q / 2 powi e \<le> 2 ^ 53"
    by (simp add: pos_divide_le_eq mult.commute)
  then have "q / 2 powi e \<le> of_int (2 ^ 53)" by simp
  then have m53: "m \<le> 2 ^ 53" unfolding m_def by (rule rhe_le)
  have "of_int 0 \<le> q / 2 powi e" using q by simp
  then have m0: "0 \<le> m" unfolding m_def by (rule rhe_ge)
  have "nearest_double q = of_int m * 2 powi e"
    by (simp add: nearest_double_def g m_def)
  moreover have "- 1074 \<le> e" by (simp add: e_def)
  ultimately show ?thesis
    unfolding is_double_def using m0 m53 by blast
qed

lemma nearest_double_optimal:
  assumes "is_double w" and "0 < q"
  shows "\<bar>nearest_double q - q\<bar> \<le> \<bar>w - q\<bar>"
proof -
  from assms(1) obtain m k where m: "0 \<le> m" "m \<le> 2 ^ 53" and k: "- 1074 \<le> k"
    and w: "w = of_int m * 2 powi k"
    unfolding is_double_def by blast
  define e where "e = max (floor_log2 q - 52) (- 1074)"
  have g: "quantum q = 2 powi e" by (simp add: quantum_def e_def)
  show ?thesis
  proof (cases "e \<le> k")
    case True
    have "2 powi k = (2::rat) powi ((k - e) + e)" by simp
    also have "\<dots> = 2 powi (k - e) * 2 powi e" by (rule powi_split)
    also have "2 powi (k - e) = (of_int (2 ^ nat (k - e)) :: rat)"
      using True by (intro powi_nonneg_int) simp
    finally have "w = of_int (m * 2 ^ nat (k - e)) * quantum q"
      by (simp add: w g)
    then show ?thesis
      using nearest_double_grid [of q "m * 2 ^ nat (k - e)"] by simp
  next
    case False
    then have e: "e = floor_log2 q - 52" and ke: "k + 1 \<le> e"
      using k by (simp_all add: e_def max_def split: if_splits)
    have "(of_int m :: rat) \<le> of_int (2 ^ 53)" using m(2) by (simp only: of_int_le_iff)
    then have "w \<le> 2 ^ 53 * 2 powi k"
      unfolding w by (intro mult_right_mono) simp_all
    also have "\<dots> = 2 powi (k + 53)" by (simp add: powi_split)
    also have "\<dots> \<le> 2 powi (floor_log2 q)"
      using ke e by (intro power_int_increasing) simp_all
    finally have wlo: "w \<le> 2 powi (floor_log2 q)" .
    have lo: "2 powi (floor_log2 q) \<le> q" using assms(2) by (rule floor_log2_bounds)
    have "2 powi (floor_log2 q) = (2::rat) powi (52 + e)" by (simp add: e)
    also have "\<dots> = 2 ^ 52 * 2 powi e" by (simp add: powi_split)
    finally have "2 powi (floor_log2 q) = of_int (2 ^ 52) * quantum q"
      by (simp add: g)
    then have "\<bar>nearest_double q - q\<bar> \<le> \<bar>2 powi (floor_log2 q) - q\<bar>"
      using nearest_double_grid [of q "2 ^ 52"] by simp
    also have "\<dots> \<le> \<bar>w - q\<bar>"
      using wlo lo by linarith
    finally show ?thesis .
  qed
qed

lemma double_below_overflow:
  assumes "is_double w" and "w < 2 ^ 1024"
  shows "w \<le> 2 ^ 1024 - 2 ^ 971"
proof -
  from assms(1) obtain m k where m: "0 \<le> m" "m \<le> 2 ^ 53" and k: "- 1074 \<le> k"
    and w: "w = of_int m * 2 powi k"
    unfolding is_double_def by blast
  show ?thesis
  proof (cases "971 \<le> k")
    case True
    define N where "N = m * 2 ^ nat (k - 971)"
    have "2 powi k = (2::rat) powi ((k - 971) + 971)" by simp
    also have "\<dots> = 2 powi (k - 971) * 2 powi 971" by (rule powi_split)
    also have "2 powi (k - 971) = (of_int (2 ^ nat (k - 971)) :: rat)"
      using True by (intro powi_nonneg_int) simp
    finally have wN: "w = of_int N * 2 ^ 971"
      by (simp add: w N_def)
    have "(2::rat) ^ 1024 = of_int (2 ^ 53) * 2 ^ 971"
      by (simp flip: power_add)
    with assms(2) wN have "(of_int N :: rat) * 2 ^ 971 < of_int (2 ^ 53) * 2 ^ 971" by simp
    then have "(of_int N :: rat) < of_int (2 ^ 53)"
      by (simp only: mult_less_cancel_right_pos zero_less_power zero_less_numeral)
    then have "N < 2 ^ 53" by (simp only: of_int_less_iff)
    then have "N \<le> 2 ^ 53 - 1" by simp
    then have "(of_int N :: rat) \<le> of_int (2 ^ 53 - 1)" by (simp only: of_int_le_iff)
    then have "of_int N * (2::rat) ^ 971 \<le> of_int (2 ^ 53 - 1) * 2 ^ 971"
      by (intro mult_right_mono) simp_all
    also have "\<dots> = 2 ^ 1024 - 2 ^ 971"
      by (simp add: algebra_simps flip: power_add)
    finally show ?thesis by (simp only: wN)
  next
    case False
    have "(of_int m :: rat) \<le> of_int (2 ^ 53)" using m(2) by (simp only: of_int_le_iff)
    then have "w \<le> 2 ^ 53 * 2 powi k"
      unfolding w by (intro mult_right_mono) simp_all
    also have "\<dots> = 2 powi (k + 53)" by (simp add: powi_split)
    also have "\<dots> \<le> 2 powi 1023"
      using False by (intro power_int_increasing) simp_all
    also have "\<dots> \<le> 2 ^ 1024 - 2 ^ 971" by simp
    finally show ?thesis .
  qed
qed

lemma nearest_double_overflow:
  assumes "2 ^ 1024 \<le> q"
  shows "2 ^ 1024 \<le> nearest_double q"
proof -
  have q: "0 < q" using assms by (rule less_le_trans [rotated]) simp
  have "(2::rat) powi 1024 \<le> q" using assms by simp
  also have "q < 2 powi (floor_log2 q + 1)" using q by (rule floor_log2_bounds)
  finally have lt: "(2::rat) powi 1024 < 2 powi (floor_log2 q + 1)" .
  have fl: "1024 \<le> floor_log2 q"
  proof (rule ccontr)
    assume "\<not> 1024 \<le> floor_log2 q"
    then have "floor_log2 q + 1 \<le> 1024" by simp
    then have "(2::rat) powi (floor_log2 q + 1) \<le> 2 powi 1024"
      by (intro power_int_increasing) simp_all
    with lt show False by simp
  qed
  define e where "e = floor_log2 q - 52"
  have g: "quantum q = 2 powi e" using fl by (simp add: quantum_def e_def max_def)
  have lo: "2 powi (floor_log2 q) \<le> q" using q by (rule floor_log2_bounds)
  have "2 powi (floor_log2 q) = (2::rat) powi (52 + e)" by (simp add: e_def)
  also have "\<dots> = 2 ^ 52 * 2 powi e" by (simp add: powi_split)
  finally have split: "2 powi (floor_log2 q) = (2::rat) ^ 52 * 2 powi e" .
  with lo have "(2::rat) ^ 52 \<le> q / 2 powi e"
    by (simp add: pos_le_divide_eq)
  then have "of_int (2 ^ 52) \<le> q / 2 powi e" by simp
  then have "2 ^ 52 \<le> round_half_even (q / 2 powi e)" by (rule rhe_ge)
  then have "(of_int (2 ^ 52) :: rat) \<le> of_int (round_half_even (q / 2 powi e))"
    by (simp only: of_int_le_iff)
  then have "of_int (2 ^ 52) * 2 powi e \<le> nearest_double q"
    unfolding nearest_double_def g by (intro mult_right_mono) simp_all
  moreover have "(2::rat) powi 1024 \<le> 2 powi (floor_log2 q)"
    using fl by (intro power_int_increasing) simp_all
  ultimately show ?thesis
    using split by simp
qed

lemma cents_roundtrip:
  assumes "is_double v" and "0 \<le> v" and "v < 2 ^ 1024"
    and c: "c = round_half_even (v * 100)"
  shows "nearest_double (of_int c / 100) < 2 ^ 1024"
    and "round_half_even (nearest_double (of_int c / 100) * 100) = c"
proof -
  let ?r = "of_int c / 100 :: rat"
  have c0: "0 \<le> c"
    unfolding c using assms(2) by (intro rhe_ge) simp
  have err: "\<bar>of_int c - v * 100\<bar> \<le> 1 / 2"
    unfolding c by (rule rhe_error)
  have both: "nearest_double ?r < 2 ^ 1024 \<and> round_half_even (nearest_double ?r * 100) = c"
  proof (cases "c = 0")
    case True
    have "round_half_even 0 = 0" using rhe_of_int [of 0] by simp
    then have "nearest_double 0 = 0" by (simp add: nearest_double_def)
    moreover have "(0::rat) < 2 ^ 1024" by (rule zero_less_power) simp
    ultimately show ?thesis using True \<open>round_half_even 0 = 0\<close> by (simp del: power_numeral)
  next
    case False
    with c0 have r: "0 < ?r" by simp
    have opt: "\<bar>nearest_double ?r - ?r\<bar> \<le> \<bar>v - ?r\<bar>"
      using assms(1) r by (rule nearest_double_optimal)
    have "\<bar>v - ?r\<bar> = \<bar>of_int c - v * 100\<bar> / 100"
      by (simp add: abs_if field_simps)
    with err have vr: "\<bar>v - ?r\<bar> \<le> 1 / 200" by simp
    define A B :: rat where "A = 2 ^ 1024" and "B = 2 ^ 971"
    have "v \<le> A - B"
      unfolding A_def B_def using assms(1,3) by (rule double_below_overflow)
    moreover have "nearest_double ?r \<le> v + 1 / 100"
      using opt vr by linarith
    moreover have "1 \<le> B" unfolding B_def by (rule one_le_power) simp
    ultimately have "nearest_double ?r < A" by linarith
    then have fin: "nearest_double ?r < 2 ^ 1024" by (simp only: A_def)
    have "\<bar>nearest_double ?r * 100 - of_int c\<bar> = 100 * \<bar>nearest_double ?r - ?r\<bar>"
      by (simp add: abs_if field_simps)
    also have "\<dots> \<le> 100 * \<bar>v - ?r\<bar>" using opt by simp
    also have "\<dots> = \<bar>v * 100 - of_int c\<bar>"
      by (simp add: abs_if field_simps)
    finally have le: "\<bar>nearest_double ?r * 100 - of_int c\<bar> \<le> \<bar>v * 100 - of_int c\<bar>" .
    have "round_half_even (nearest_double ?r * 100) = c"
      using c [symmetric] le by (rule rhe_stable)
    with fin show ?thesis by (simp only: simp_thms)
  qed
  from both show "nearest_double ?r < 2 ^ 1024" by (rule conjunct1)
  from both show "round_half_even (nearest_double ?r * 100) = c" by (rule conjunct2)
qed

lemma digit_range:
  assumes "0 \<le> d" and "d < 10"
  shows "d \<in> {0, 1, 2, 3, 4, 5, 6, 7, 8, 9::int}"
  using assms by (simp only: insert_iff empty_iff) presburger

lemma digit_char_props:
  assumes "0 \<le> d" and "d < 10"
  shows "ascii_digit (digit_char d)" and "digit_val (digit_char d) = d"
proof -
  from digit_range [OF assms]
  have "ascii_digit (digit_char d) \<and> digit_val (digit_char d) = d"
    by (elim insertE emptyE; simp add: digit_char_def digit_val_def ascii_digit_def)
  then show "ascii_digit (digit_char d)" and "digit_val (digit_char d) = d" by simp_all
qed

lemma int_of_digits_snoc: "int_of_digits (xs @ [c]) = 10 * int_of_digits xs + digit_val c"
  by (simp add: int_of_digits_def)

lemma digits_of_int_props:
  assumes "0 \<le> n"
  shows "list_all ascii_digit (digits_of_int n) \<and> digits_of_int n \<noteq> []
    \<and> int_of_digits (digits_of_int n) = n"
  using assms
proof (induction n rule: digits_of_int.induct)
  case (1 n)
  show ?case
  proof (cases "n < 10")
    case True
    then have "digits_of_int n = [digit_char n]" by (subst digits_of_int.simps) simp
    then show ?thesis
      using digit_char_props [OF "1.prems" True] by (simp add: int_of_digits_def)
  next
    case False
    then have eq: "digits_of_int n = digits_of_int (n div 10) @ [digit_char (n mod 10)]"
      by (subst digits_of_int.simps) simp
    have "0 \<le> n div 10" using "1.prems" by simp
    with "1.IH" False have IH: "list_all ascii_digit (digits_of_int (n div 10))"
      "int_of_digits (digits_of_int (n div 10)) = n div 10" by simp_all
    have d: "ascii_digit (digit_char (n mod 10))" "digit_val (digit_char (n mod 10)) = n mod 10"
      by (rule digit_char_props; simp)+
    show ?thesis
      unfolding eq using IH d by (simp add: int_of_digits_snoc)
  qed
qed

lemma group_thousands_filter:
  "filter (\<lambda>c. c \<noteq> CHR '','') (group_thousands s) = filter (\<lambda>c. c \<noteq> CHR '','') s"
proof (induction s rule: group_thousands.induct)
  case (1 s)
  show ?case
  proof (cases "length s \<le> 3")
    case True
    then show ?thesis by (subst group_thousands.simps) simp
  next
    case False
    then have eq: "group_thousands s =
        group_thousands (take (length s - 3) s) @ '','' @ drop (length s - 3) s"
      by (subst group_thousands.simps) simp
    have "filter (\<lambda>c. c \<noteq> CHR '','') (group_thousands s) =
        filter (\<lambda>c. c \<noteq> CHR '','') (take (length s - 3) s)
          @ filter (\<lambda>c. c \<noteq> CHR '','') (drop (length s - 3) s)"
      unfolding eq using "1.IH" False by simp
    also have "\<dots> = filter (\<lambda>c. c \<noteq> CHR '','') (take (length s - 3) s @ drop (length s - 3) s)"
      by (simp only: filter_append)
    also have "take (length s - 3) s @ drop (length s - 3) s = s"
      by (rule append_take_drop_id)
    finally show ?thesis .
  qed
qed

lemma group_thousands_set: "set (group_thousands s) \<subseteq> set s \<union> {CHR '',''}"
proof (induction s rule: group_thousands.induct)
  case (1 s)
  show ?case
  proof (cases "length s \<le> 3")
    case True
    then show ?thesis by (subst group_thousands.simps) auto
  next
    case False
    then have eq: "group_thousands s =
        group_thousands (take (length s - 3) s) @ '','' @ drop (length s - 3) s"
      by (subst group_thousands.simps) simp
    have "set (take (length s - 3) s) \<subseteq> set s" "set (drop (length s - 3) s) \<subseteq> set s"
      by (auto dest: in_set_takeD in_set_dropD)
    with "1.IH" False show ?thesis
      unfolding eq by auto
  qed
qed

lemma group_thousands_hd: "s \<noteq> [] \<Longrightarrow> group_thousands s \<noteq> [] \<and> hd (group_thousands s) = hd s"
proof (induction s rule: group_thousands.induct)
  case (1 s)
  show ?case
  proof (cases "length s \<le> 3")
    case True
    then show ?thesis using "1.prems" by (subst (1 2) group_thousands.simps) simp
  next
    case False
    then have eq: "group_thousands s =
        group_thousands (take (length s - 3) s) @ '','' @ drop (length s - 3) s"
      by (subst group_thousands.simps) simp
    have ne: "take (length s - 3) s \<noteq> []" using False by auto
    with "1.IH" False have "group_thousands (take (length s - 3) s) \<noteq> []"
      "hd (group_thousands (take (length s - 3) s)) = hd (take (length s - 3) s)" by simp_all
    moreover have "hd (take (length s - 3) s) = hd s" using ne by (cases s) auto
    ultimately show ?thesis unfolding eq by simp
  qed
qed

lemma ascii_digit_facts:
  assumes "ascii_digit c"
  shows "py_isdigit c" and "c \<noteq> CHR '',''" and "c \<noteq> CHR ''.''" and "c \<noteq> CHR ''-''"
    and "c \<noteq> CHR ''+''" and "\<not> py_isspace c"
proof -
  from assms have "c \<in> set ''0123456789''" by (simp only: ascii_digit_def)
  then have "py_isdigit c \<and> c \<noteq> CHR '','' \<and> c \<noteq> CHR ''.'' \<and> c \<noteq> CHR ''-''
      \<and> c \<noteq> CHR ''+'' \<and> \<not> py_isspace c"
    unfolding set_simps
    by (elim insertE emptyE; simp add: py_isdigit_def ascii_digit_def py_isspace_def)
  then show "py_isdigit c" and "c \<noteq> CHR '',''" and "c \<noteq> CHR ''.''" and "c \<noteq> CHR ''-''"
    and "c \<noteq> CHR ''+''" and "\<not> py_isspace c" by simp_all
qed

lemma comma_not_digit: "\<not> py_isdigit CHR '',''"
  by (simp add: py_isdigit_def ascii_digit_def)

lemma minus_not_digit: "\<not> py_isdigit CHR ''-''"
  by (simp add: py_isdigit_def ascii_digit_def)

lemma point_minus_not_space: "\<not> py_isspace CHR ''.''" "\<not> py_isspace CHR ''-''"
  by (simp_all add: py_isspace_def)

lemma scan_digits_commas:
  assumes "\<forall>c\<in>set w. ascii_digit c \<or> c = CHR '',''"
  shows "scan True acc (w @ rest) = scan True (acc @ filter (\<lambda>c. c \<noteq> CHR '','') w) rest"
  using assms
proof (induction w arbitrary: acc)
  case Nil
  then show ?case by simp
next
  case (Cons c w)
  show ?case
  proof (cases "c = CHR '',''")
    case True
    then show ?thesis using Cons comma_not_digit by simp
  next
    case False
    with Cons.prems have "ascii_digit c" by simp
    then have "py_isdigit c" by (rule ascii_digit_facts)
    then show ?thesis using Cons False by simp
  qed
qed

lemma scan_leading:
  assumes "\<forall>c\<in>set w. ascii_digit c \<or> c = CHR '',''" and "\<exists>c\<in>set w. ascii_digit c"
  shows "scan False [] (w @ rest) = scan True (filter (\<lambda>c. c \<noteq> CHR '','') w) rest"
  using assms
proof (induction w)
  case Nil
  then show ?case by simp
next
  case (Cons c w)
  show ?case
  proof (cases "c = CHR '',''")
    case True
    with Cons.prems have "\<exists>c\<in>set w. ascii_digit c"
      using ascii_digit_facts(2) by auto
    with Cons True show ?thesis using comma_not_digit by simp
  next
    case False
    with Cons.prems have "ascii_digit c" by simp
    then have d: "py_isdigit c" by (rule ascii_digit_facts)
    have "scan False [] ((c # w) @ rest) = scan True [c] (w @ rest)"
      using d by simp
    also have "\<dots> = scan True ([c] @ filter (\<lambda>c. c \<noteq> CHR '','') w) rest"
      using Cons.prems(1) by (intro scan_digits_commas) simp
    finally show ?thesis using False by simp
  qed
qed

lemma scan_sign: "scan True acc (rev (sign_of neg)) = acc @ sign_of neg"
  using minus_not_digit by (simp add: sign_of_def)

lemma numeric_part_decimal:
  assumes "\<forall>c\<in>set ip. ascii_digit c \<or> c = CHR '',''" and "\<exists>c\<in>set ip. ascii_digit c"
    and "tail = [] \<or> (\<exists>fp. tail = CHR ''.'' # fp \<and> fp \<noteq> [] \<and> list_all ascii_digit fp)"
  shows "numeric_part (sign_of neg @ ip @ tail)
    = sign_of neg @ filter (\<lambda>c. c \<noteq> CHR '','') ip @ tail"
proof -
  let ?f = "filter (\<lambda>c. c \<noteq> CHR '','')"
  have rip: "\<forall>c\<in>set (rev ip). ascii_digit c \<or> c = CHR '',''" "\<exists>c\<in>set (rev ip). ascii_digit c"
    using assms(1,2) by simp_all
  have "scan False [] (rev (sign_of neg @ ip @ tail)) = rev tail @ ?f (rev ip) @ sign_of neg"
  proof (cases "tail = []")
    case True
    have "scan False [] (rev ip @ rev (sign_of neg)) = scan True (?f (rev ip)) (rev (sign_of neg))"
      using rip by (rule scan_leading)
    then show ?thesis using True by (simp add: scan_sign)
  next
    case False
    with assms(3) obtain fp where fp: "tail = CHR ''.'' # fp" "fp \<noteq> []" "list_all ascii_digit fp"
      by blast
    have "hd fp \<in> set fp" using fp(2) by simp
    then have rfp: "\<forall>c\<in>set (rev fp). ascii_digit c \<or> c = CHR '',''" "\<exists>c\<in>set (rev fp). ascii_digit c"
      using fp(3) by (auto simp: list_all_iff)
    have nocomma: "?f (rev fp) = rev fp"
      using fp(3) ascii_digit_facts(2) by (auto simp: filter_id_conv list_all_iff)
    have "scan False [] (rev (sign_of neg @ ip @ tail))
        = scan False [] (rev fp @ (CHR ''.'' # rev ip @ rev (sign_of neg)))"
      by (simp add: fp(1))
    also have "\<dots> = scan True (rev fp) (CHR ''.'' # rev ip @ rev (sign_of neg))"
      using scan_leading [OF rfp] nocomma by simp
    also have "\<dots> = scan True (rev fp @ ''.'') (rev ip @ rev (sign_of neg))"
      by simp
    also have "\<dots> = scan True ((rev fp @ ''.'') @ ?f (rev ip)) (rev (sign_of neg))"
      using rip(1) by (rule scan_digits_commas)
    also have "\<dots> = (rev fp @ ''.'') @ ?f (rev ip) @ sign_of neg"
      by (simp add: scan_sign)
    finally show ?thesis by (simp add: fp(1))
  qed
  then have "numeric_part (sign_of neg @ ip @ tail) = rev (rev tail @ ?f (rev ip) @ sign_of neg)"
    by (simp only: numeric_part_def)
  also have "\<dots> = rev (sign_of neg) @ ?f ip @ tail"
    by (simp add: rev_filter)
  also have "rev (sign_of neg) = sign_of neg" by (simp add: sign_of_def)
  finally show ?thesis .
qed

lemma float_unsigned_decimal:
  assumes "ds \<noteq> []" and "list_all ascii_digit ds"
    and "tail = [] \<or> (\<exists>fp. tail = CHR ''.'' # fp \<and> fp \<noteq> [] \<and> list_all ascii_digit fp)"
  shows "float_unsigned neg (ds @ tail) =
     Inr (double_of_rat neg
       (if tail = [] then of_int (int_of_digits ds)
        else of_int (int_of_digits (ds @ tl tail)) / 10 ^ length (tl tail)))"
proof -
  have "\<not> ascii_digit CHR ''.''" using ascii_digit_facts(3) by blast
  then have start: "tail = [] \<or> \<not> ascii_digit (hd tail)"
    using assms(3) by auto
  have tw: "takeWhile ascii_digit (ds @ tail) = ds"
  proof -
    have "takeWhile ascii_digit (ds @ tail) = ds @ takeWhile ascii_digit tail"
      using assms(2) by (intro takeWhile_append2) (simp add: list_all_iff)
    moreover have "takeWhile ascii_digit tail = []"
      using start by (cases tail) auto
    ultimately show ?thesis by simp
  qed
  have dw: "dropWhile ascii_digit (ds @ tail) = tail"
  proof -
    have "dropWhile ascii_digit (ds @ tail) = dropWhile ascii_digit tail"
      using assms(2) by (intro dropWhile_append2) (simp add: list_all_iff)
    moreover have "dropWhile ascii_digit tail = tail"
      using start by (cases tail) auto
    ultimately show ?thesis by simp
  qed
  show ?thesis
  proof (cases "tail = []")
    case True
    then show ?thesis
      unfolding float_unsigned_def tw dw Let_def using assms(1) by simp
  next
    case False
    with assms(3) obtain fp where fp: "tail = CHR ''.'' # fp" "fp \<noteq> []" "list_all ascii_digit fp"
      by blast
    then show ?thesis
      unfolding float_unsigned_def tw dw Let_def by simp
  qed
qed

lemma py_float_decimal:
  assumes "ds \<noteq> []" and "list_all ascii_digit ds"
    and "tail = [] \<or> (\<exists>fp. tail = CHR ''.'' # fp \<and> fp \<noteq> [] \<and> list_all ascii_digit fp)"
  shows "py_float (sign_of neg @ ds @ tail) =
     Inr (double_of_rat neg
       (if tail = [] then of_int (int_of_digits ds)
        else of_int (int_of_digits (ds @ tl tail)) / 10 ^ length (tl tail)))"
proof -
  have nospace: "\<forall>c\<in>set (sign_of neg @ ds @ tail). \<not> py_isspace c"
    using assms(2,3) ascii_digit_facts(6) point_minus_not_space
    by (auto simp: sign_of_def list_all_iff)
  then have strip: "py_strip (sign_of neg @ ds @ tail) = sign_of neg @ ds @ tail"
    by (rule py_strip_no_space)
  obtain d ds' where ds: "ds = d # ds'" using assms(1) by (cases ds) auto
  then have d: "ascii_digit d" using assms(2) by simp
  have "py_float (sign_of neg @ ds @ tail) = float_unsigned neg (ds @ tail)"
  proof (cases neg)
    case True
    then show ?thesis
      unfolding py_float_def strip by (simp add: sign_of_def)
  next
    case False
    then show ?thesis
      unfolding py_float_def strip using ascii_digit_facts(4,5) [OF d]
      by (simp add: sign_of_def ds)
  qed
  then show ?thesis
    using float_unsigned_decimal [OF assms] by simp
qed

lemma digit_val_nonneg: "ascii_digit c \<Longrightarrow> 0 \<le> digit_val c"
  unfolding ascii_digit_def set_simps
  by (elim insertE emptyE; simp add: digit_val_def)

lemma int_of_digits_nonneg: "list_all ascii_digit ds \<Longrightarrow> 0 \<le> int_of_digits ds"
proof (induction ds rule: rev_induct)
  case Nil
  show ?case by (simp add: int_of_digits_def)
next
  case (snoc c ds)
  then have "0 \<le> int_of_digits ds" and "0 \<le> digit_val c"
    by (simp_all add: digit_val_nonneg)
  then show ?case by (simp add: int_of_digits_snoc)
qed

lemma tail_chars:
  assumes "tail = [] \<or> (\<exists>fp. tail = CHR ''.'' # fp \<and> fp \<noteq> [] \<and> list_all ascii_digit fp)"
    and "c \<in> set tail"
  shows "c = CHR ''.'' \<or> ascii_digit c"
proof -
  from assms obtain fp where "tail = CHR ''.'' # fp" "list_all ascii_digit fp"
    by (cases "tail = []") auto
  with assms(2) show ?thesis by (auto simp: list_all_iff)
qed

lemma sign_chars: "c \<in> set (sign_of neg) \<Longrightarrow> c = CHR ''-''"
  by (simp add: sign_of_def split: if_splits)

lemma extract_decimal:
  assumes ip: "\<forall>c\<in>set ip. ascii_digit c \<or> c = CHR '',''" "\<exists>c\<in>set ip. ascii_digit c"
    and tail: "tail = [] \<or> (\<exists>fp. tail = CHR ''.'' # fp \<and> fp \<noteq> [] \<and> list_all ascii_digit fp)"
  shows "\<exists>q\<ge>0. extract_and_format_value (sign_of neg @ ip @ tail) = Inr (format_2f (double_of_rat neg q))
    \<and> q = (if tail = [] then of_int (int_of_digits (filter (\<lambda>c. c \<noteq> CHR '','') ip))
           else of_int (int_of_digits (filter (\<lambda>c. c \<noteq> CHR '','') ip @ tl tail)) / 10 ^ length (tl tail))"
proof -
  let ?f = "filter (\<lambda>c. c \<noteq> CHR '','')"
  define ds where "ds = ?f ip"
  define q :: rat where "q = (if tail = [] then of_int (int_of_digits ds)
           else of_int (int_of_digits (ds @ tl tail)) / 10 ^ length (tl tail))"
  have ds_ne: "ds \<noteq> []"
    using ip(2) ascii_digit_facts(2) by (auto simp: ds_def filter_empty_conv)
  have ds_dig: "list_all ascii_digit ds"
    using ip(1) by (auto simp: ds_def list_all_iff)
  have np: "numeric_part (sign_of neg @ ip @ tail) = sign_of neg @ ds @ tail"
    unfolding ds_def using ip tail by (rule numeric_part_decimal)
  have "c \<noteq> CHR '',''" if "c \<in> set (sign_of neg @ ds @ tail)" for c
  proof -
    from that consider "c \<in> set (sign_of neg)" | "c \<in> set ds" | "c \<in> set tail" by auto
    then show ?thesis
    proof cases
      case 1
      then show ?thesis using sign_chars by fastforce
    next
      case 2
      then have "ascii_digit c" using ds_dig by (simp add: list_all_iff)
      then show ?thesis by (rule ascii_digit_facts)
    next
      case 3
      then have "c = CHR ''.'' \<or> ascii_digit c" using tail by (intro tail_chars)
      then show ?thesis using ascii_digit_facts(2) by auto
    qed
  qed
  then have "\<forall>c\<in>set (sign_of neg @ ds @ tail). c \<noteq> CHR '',''" by blast
  then have nocomma: "?f (sign_of neg @ ds @ tail) = sign_of neg @ ds @ tail"
    by (simp only: filter_id_conv)
  have pf: "py_float (sign_of neg @ ds @ tail) = Inr (double_of_rat neg q)"
    unfolding q_def using ds_ne ds_dig tail by (rule py_float_decimal)
  have "0 \<le> q"
  proof (cases "tail = []")
    case True
    then show ?thesis using int_of_digits_nonneg [OF ds_dig] by (simp add: q_def)
  next
    case False
    with tail obtain fp where "tail = CHR ''.'' # fp" "list_all ascii_digit fp" by blast
    then have "list_all ascii_digit (ds @ tl tail)" using ds_dig by simp
    then have "0 \<le> int_of_digits (ds @ tl tail)" by (rule int_of_digits_nonneg)
    then show ?thesis using False by (simp add: q_def)
  qed
  moreover have "extract_and_format_value (sign_of neg @ ip @ tail) = Inr (format_2f (double_of_rat neg q))"
    by (simp only: extract_and_format_value_def np nocomma pf sum.case)
  ultimately show ?thesis
    unfolding q_def ds_def by blast
qed

lemma well_formed_decimal_parts:
  assumes "well_formed_decimal x"
  shows "\<exists>neg ip tail. x = sign_of neg @ ip @ tail
    \<and> (\<forall>c\<in>set ip. ascii_digit c \<or> c = CHR '','') \<and> (\<exists>c\<in>set ip. ascii_digit c)
    \<and> (tail = [] \<or> (\<exists>fp. tail = CHR ''.'' # fp \<and> fp \<noteq> [] \<and> list_all ascii_digit fp))"
proof -
  define neg where "neg \<longleftrightarrow> take 1 x = ''-''"
  define body where "body = (if neg then drop 1 x else x)"
  define ip where "ip = takeWhile (\<lambda>c. c \<noteq> CHR ''.'') body"
  define tail where "tail = dropWhile (\<lambda>c. c \<noteq> CHR ''.'') body"
  from assms have wf: "ip \<noteq> []" "ascii_digit (hd ip)"
    "list_all (\<lambda>c. ascii_digit c \<or> c = CHR '','') ip"
    "tail = [] \<or> (tl tail \<noteq> [] \<and> list_all ascii_digit (tl tail))"
    by (simp_all add: well_formed_decimal_def Let_def neg_def body_def ip_def tail_def)
  have "x = sign_of neg @ body"
  proof (cases neg)
    case True
    then have "take 1 x @ drop 1 x = ''-'' @ drop 1 x" by (simp only: neg_def)
    then show ?thesis using True by (simp add: sign_of_def body_def)
  next
    case False
    then show ?thesis by (simp add: sign_of_def body_def)
  qed
  moreover have "body = ip @ tail" by (simp add: ip_def tail_def)
  moreover have "\<forall>c\<in>set ip. ascii_digit c \<or> c = CHR '',''"
    using wf(3) by (simp add: list_all_iff)
  moreover have "\<exists>c\<in>set ip. ascii_digit c"
    using wf(1,2) by (intro bexI [of _ "hd ip"]) simp_all
  moreover have "tail = [] \<or> (\<exists>fp. tail = CHR ''.'' # fp \<and> fp \<noteq> [] \<and> list_all ascii_digit fp)"
  proof (cases "tail = []")
    case True
    then show ?thesis by simp
  next
    case False
    then have "\<not> (hd tail \<noteq> CHR ''.'')"
      unfolding tail_def by (rule hd_dropWhile)
    then have "tail = CHR ''.'' # tl tail" using False by (cases tail) auto
    with wf(4) False show ?thesis by blast
  qed
  ultimately show ?thesis by blast
qed

lemma nearest_double_zero: "nearest_double 0 = 0"
proof -
  have "round_half_even 0 = 0" using rhe_of_int [of 0] by simp
  then show ?thesis by (simp add: nearest_double_def)
qed

lemma double_of_rat_cases:
  assumes "0 \<le> q"
  obtains (overflow) "double_of_rat neg q = Infinity neg"
  | (finite) "double_of_rat neg q = Finite neg (nearest_double q)"
      "nearest_double q < 2 ^ 1024" "is_double (nearest_double q)" "0 \<le> nearest_double q"
proof (cases "2 ^ 1024 \<le> nearest_double q")
  case True
  then have "q \<noteq> 0" using nearest_double_zero by auto
  with True have "double_of_rat neg q = Infinity neg"
    by (simp only: double_of_rat_alt if_False if_True)
  then show ?thesis by (rule overflow)
next
  case False
  have "double_of_rat neg q = Finite neg (nearest_double q)"
  proof (cases "q = 0")
    case True
    then show ?thesis by (simp only: double_of_rat_alt nearest_double_zero if_True refl simp_thms)
  next
    case nz: False
    with False show ?thesis by (simp only: double_of_rat_alt if_False)
  qed
  moreover have "nearest_double q < 2 ^ 1024" using False by (simp only: not_le)
  moreover have "is_double (nearest_double q)" using assms by (rule nearest_double_is_double)
  moreover have "0 \<le> nearest_double q" using assms by (rule nearest_double_nonneg)
  ultimately show ?thesis by (rule finite)
qed

lemma format_2f_Finite:
  "format_2f (Finite neg v) =
     sign_of neg @ group_thousands (digits_of_int (round_half_even (v * 100) div 100))
       @ CHR ''.'' # [digit_char (round_half_even (v * 100) mod 100 div 10),
                     digit_char (round_half_even (v * 100) mod 10)]"
  by (simp add: format_2f_def sign_of_def Let_def)

lemma cents_digits_aux:
  fixes X Y Z W M c :: int
  assumes "X * 100 + M = c" and "Y * 10 + W = M" and "W = Z"
  shows "10 * (10 * X + Y) + Z = c"
  using assms by (simp add: algebra_simps)

lemma cents_digits:
  fixes c :: int
  shows "10 * (10 * (c div 100) + c mod 100 div 10) + c mod 10 = c"
proof -
  have a: "c div 100 * 100 + c mod 100 = c" by (rule div_mult_mod_eq)
  have b: "c mod 100 div 10 * 10 + c mod 100 mod 10 = c mod 100" by (rule div_mult_mod_eq)
  have "(10::int) dvd 100" by simp
  then have d: "c mod 100 mod 10 = c mod 10" by (rule mod_mod_cancel)
  from a b d show ?thesis by (rule cents_digits_aux)
qed

lemma extract_canonical:
  assumes "0 \<le> c"
  shows "extract_and_format_value
      (sign_of neg @ group_thousands (digits_of_int (c div 100))
         @ CHR ''.'' # [digit_char (c mod 100 div 10), digit_char (c mod 10)])
    = Inr (format_2f (double_of_rat neg (of_int c / 100)))"
proof -
  let ?Ds = "digits_of_int (c div 100)"
  let ?G = "group_thousands ?Ds"
  let ?d1 = "digit_char (c mod 100 div 10)" and ?d0 = "digit_char (c mod 10)"
  let ?tail = "CHR ''.'' # [?d1, ?d0]"
  let ?f = "filter (\<lambda>c. c \<noteq> CHR '','')"
  have n: "0 \<le> c div 100" using assms by simp
  note Ds = digits_of_int_props [OF n]
  have Ds_dig: "\<forall>c\<in>set ?Ds. ascii_digit c" using Ds by (simp add: list_all_iff)
  have d1: "ascii_digit ?d1" "digit_val ?d1 = c mod 100 div 10"
    by (rule digit_char_props; simp)+
  have d0: "ascii_digit ?d0" "digit_val ?d0 = c mod 10"
    by (rule digit_char_props; simp)+
  have G1: "\<forall>c\<in>set ?G. ascii_digit c \<or> c = CHR '',''"
    using group_thousands_set [of ?Ds] Ds_dig by blast
  have hdG: "hd ?G = hd ?Ds" "?G \<noteq> []" using group_thousands_hd [of ?Ds] Ds by simp_all
  have "hd ?Ds \<in> set ?Ds" using Ds by simp
  then have "ascii_digit (hd ?G)" using Ds_dig hdG(1) by simp
  moreover have "hd ?G \<in> set ?G" using hdG(2) by (rule hd_in_set)
  ultimately have G2: "\<exists>c\<in>set ?G. ascii_digit c" by blast
  have T: "?tail = [] \<or> (\<exists>fp. ?tail = CHR ''.'' # fp \<and> fp \<noteq> [] \<and> list_all ascii_digit fp)"
    using d1(1) d0(1) by simp
  have "?f ?G = ?f ?Ds" by (rule group_thousands_filter)
  also have "\<dots> = ?Ds"
    using Ds_dig ascii_digit_facts(2) by (auto simp: filter_id_conv)
  finally have fG: "?f ?G = ?Ds" .
  have "int_of_digits (?Ds @ [?d1, ?d0]) = 10 * (10 * (c div 100) + c mod 100 div 10) + c mod 10"
  proof -
    have "?Ds @ [?d1, ?d0] = (?Ds @ [?d1]) @ [?d0]" by simp
    then show ?thesis
      using Ds d1(2) d0(2) by (simp only: int_of_digits_snoc)
  qed
  then have val: "int_of_digits (?Ds @ [?d1, ?d0]) = c" by (simp only: cents_digits)
  have tne: "?tail \<noteq> []" by simp
  have tl: "tl ?tail = [?d1, ?d0]" by simp
  have len: "(10::rat) ^ length [?d1, ?d0] = 100" by simp
  from extract_decimal [OF G1 G2 T, of neg]
  have "extract_and_format_value (sign_of neg @ ?G @ ?tail) =
      Inr (format_2f (double_of_rat neg (of_int (int_of_digits (?f ?G @ tl ?tail)) / 10 ^ length (tl ?tail))))"
    using tne by (simp only: if_False) blast
  then show ?thesis
    by (simp only: fG tl val len)
qed

lemma canonical_idempotent:
  assumes "well_formed_decimal x" and "extract_and_format_value x = Inr y"
    and "y \<noteq> ''inf''" and "y \<noteq> ''-inf''"
  shows "extract_and_format_value y = Inr y"
proof -
  from well_formed_decimal_parts [OF assms(1)] obtain neg ip tail where
    x: "x = sign_of neg @ ip @ tail"
    and ip: "\<forall>c\<in>set ip. ascii_digit c \<or> c = CHR '',''" "\<exists>c\<in>set ip. ascii_digit c"
    and tail: "tail = [] \<or> (\<exists>fp. tail = CHR ''.'' # fp \<and> fp \<noteq> [] \<and> list_all ascii_digit fp)"
    by blast
  from extract_decimal [OF ip tail, of neg] obtain q where q: "0 \<le> q"
    and ex: "extract_and_format_value x = Inr (format_2f (double_of_rat neg q))"
    unfolding x by blast
  from ex assms(2) have y: "y = format_2f (double_of_rat neg q)" by simp
  from q show ?thesis
  proof (cases rule: double_of_rat_cases [where q = q and neg = neg])
    case overflow
    with y have "y = ''inf'' \<or> y = ''-inf''" by (simp add: format_2f_def)
    with assms(3,4) show ?thesis by simp
  next
    case finite
    define v where "v = nearest_double q"
    define c where "c = round_half_even (v * 100)"
    have c0: "0 \<le> c"
      unfolding c_def using finite(4) by (intro rhe_ge) (simp add: v_def)
    have yc: "y = sign_of neg @ group_thousands (digits_of_int (c div 100))
         @ CHR ''.'' # [digit_char (c mod 100 div 10), digit_char (c mod 10)]"
      unfolding y finite(1) format_2f_Finite c_def v_def ..
    have rt: "nearest_double (of_int c / 100) < 2 ^ 1024"
      "round_half_even (nearest_double (of_int c / 100) * 100) = c"
      using finite(3,4,2) c_def unfolding v_def [symmetric] by (rule cents_roundtrip)+
    have r0: "(0::rat) \<le> of_int c / 100" using c0 by simp
    have d2: "double_of_rat neg (of_int c / 100) = Finite neg (nearest_double (of_int c / 100))"
      using r0
    proof (cases rule: double_of_rat_cases [where q = "of_int c / 100" and neg = neg])
      case overflow
      have "double_of_rat neg (of_int c / 100) \<noteq> Infinity neg"
        using rt(1) nearest_double_zero by (simp add: double_of_rat_alt)
      with overflow show ?thesis by simp
    next
      case finite
      then show ?thesis by simp
    qed
    have "extract_and_format_value y = Inr (format_2f (double_of_rat neg (of_int c / 100)))"
      unfolding yc using c0 by (rule extract_canonical)
    also have "format_2f (double_of_rat neg (of_int c / 100)) = y"
      unfolding d2 format_2f_Finite rt(2) yc ..
    finally show ?thesis .
  qed
qed

lemma digits_well_formed:
  assumes "ds \<noteq> []" and "list_all ascii_digit ds"
  shows "well_formed_decimal ds"
proof -
  obtain d ds' where ds: "ds = d # ds'" using assms(1) by (cases ds) auto
  then have "ascii_digit d" using assms(2) by simp
  then have d: "d \<noteq> CHR ''-''" by (rule ascii_digit_facts)
  have nopoint: "\<forall>c\<in>set ds. c \<noteq> CHR ''.''"
    using assms(2) ascii_digit_facts(3) by (auto simp: list_all_iff)
  have tw: "takeWhile (\<lambda>c. c \<noteq> CHR ''.'') ds = ds"
    using nopoint by (simp add: takeWhile_eq_all_conv)
  have dw: "dropWhile (\<lambda>c. c \<noteq> CHR ''.'') ds = []"
    using nopoint by simp
  have body: "(if take 1 ds = ''-'' then drop 1 ds else ds) = ds"
    using ds d by simp
  have hd: "ascii_digit (hd ds)" using ds \<open>ascii_digit d\<close> by simp
  have la: "list_all (\<lambda>c. ascii_digit c \<or> c = CHR '','') ds"
    using assms(2) by (simp add: list_all_iff)
  show ?thesis
    unfolding well_formed_decimal_def Let_def body tw dw
    using assms(1) hd la by simp
qed

lemma int_of_digits_zeros:
  "int_of_digits (c # replicate n CHR ''0'') = digit_val c * 10 ^ n"
proof (induction n)
  case 0
  show ?case by (simp add: int_of_digits_def)
next
  case (Suc n)
  have "c # replicate (Suc n) CHR ''0'' = (c # replicate n CHR ''0'') @ ''0''"
    by (simp add: replicate_append_same)
  then have "int_of_digits (c # replicate (Suc n) CHR ''0'')
      = 10 * int_of_digits (c # replicate n CHR ''0'') + digit_val CHR ''0''"
    by (simp only: int_of_digits_snoc)
  also have "digit_val CHR ''0'' = 0" by (simp add: digit_val_def)
  finally show ?case using Suc by simp
qed

lemma huge_is_digits:
  "list_all ascii_digit (CHR ''1'' # replicate n CHR ''0'')"
  by (simp add: list_all_iff ascii_digit_def)

lemma huge_overflows: "(2::rat) ^ 1024 \<le> of_int (1 * 10 ^ 309)"
  by simp

lemma extract_huge:
  "extract_and_format_value (CHR ''1'' # replicate 309 CHR ''0'') = Inr ''inf''"
proof -
  let ?x = "CHR ''1'' # replicate 309 CHR ''0''"
  have dig: "\<forall>c\<in>set ?x. ascii_digit c"
    using huge_is_digits [of 309] by (simp only: list_all_iff)
  then have ip: "\<forall>c\<in>set ?x. ascii_digit c \<or> c = CHR '',''" "\<exists>c\<in>set ?x. ascii_digit c"
    by (blast, intro bexI [of _ "CHR ''1''"]) (simp_all add: ascii_digit_def)
  have nocomma: "filter (\<lambda>c. c \<noteq> CHR '','') ?x = ?x"
    using dig ascii_digit_facts(2) by (subst filter_id_conv) blast
  have t: "([]::string) = [] \<or> (\<exists>fp. ([]::string) = CHR ''.'' # fp \<and> fp \<noteq> [] \<and> list_all ascii_digit fp)"
    by simp
  from extract_decimal [OF ip t, of False]
  have "extract_and_format_value ?x = Inr (format_2f (double_of_rat False (of_int (int_of_digits ?x))))"
    by (simp add: sign_of_def nocomma)
  moreover have "int_of_digits ?x = 1 * 10 ^ 309"
    by (simp only: int_of_digits_zeros) (simp add: digit_val_def)
  moreover have "double_of_rat False (of_int (1 * 10 ^ 309)) = Infinity False"
  proof -
    have "2 ^ 1024 \<le> nearest_double (of_int (1 * 10 ^ 309))"
      using huge_overflows by (rule nearest_double_overflow)
    moreover have "(of_int (1 * 10 ^ 309) :: rat) \<noteq> 0" by simp
    ultimately show ?thesis by (simp only: double_of_rat_alt if_False if_True)
  qed
  ultimately show ?thesis by (simp add: format_2f_def)
qed

lemma extract_inf: "extract_and_format_value ''inf'' = Inr ''bug''"
proof -
  have "numeric_part ''inf'' = []"
    by (simp add: numeric_part_def py_isdigit_def ascii_digit_def)
  then show ?thesis
    by (simp add: extract_and_format_value_def py_float_def py_strip_def)
qed

lemma example_well_formed: "well_formed_decimal ''-1,234.5''"
  by code_simp

lemma example_canonical: "extract_and_format_value ''-1,234.5'' = Inr ''-1,234.50''"
  by code_simp

text \<open>
  Claim C5, as the code has it. For a well-formed decimal string whose canonical form is not
  an infinity (its magnitude rounds to a finite binary64 value), canonicalizing the canonical
  form again changes nothing.
\<close>

theorem canonical_form_idempotent:
  assumes "well_formed_decimal x" and "extract_and_format_value x = Inr y"
    and "y \<noteq> ''inf''" and "y \<noteq> ''-inf''"
  shows "extract_and_format_value y = Inr y"
  using assms by (rule canonical_idempotent)

text \<open>A negative, comma-grouped number with one decimal.\<close>

theorem canonical_form_idempotent_witness:
  "well_formed_decimal ''-1,234.5''
    \<and> extract_and_format_value ''-1,234.5'' = Inr ''-1,234.50''
    \<and> extract_and_format_value ''-1,234.50'' = Inr ''-1,234.50''"
proof -
  have "''-1,234.50'' \<noteq> ''inf''" and "''-1,234.50'' \<noteq> ''-inf''" by simp_all
  from canonical_form_idempotent [OF example_well_formed example_canonical this]
  show ?thesis using example_well_formed example_canonical by simp
qed

text \<open>
  Claim C5 as stated fails: the well-formed decimal string of the digit 1 followed by 309
  zeros is above the largest binary64 value; \<open>float\<close> gives an infinity, which prints as
  \<open>inf\<close>, and \<open>inf\<close> holds no digit, so canonicalizing it again gives \<open>bug\<close>.
\<close>

theorem canonical_overflow_counterexample:
  "well_formed_decimal (CHR ''1'' # replicate 309 CHR ''0'')
    \<and> extract_and_format_value (CHR ''1'' # replicate 309 CHR ''0'') = Inr ''inf''
    \<and> extract_and_format_value ''inf'' = Inr ''bug''
    \<and> extract_and_format_value ''inf'' \<noteq> Inr ''inf''"
proof -
  have "well_formed_decimal (CHR ''1'' # replicate 309 CHR ''0'')"
    using huge_is_digits [of 309] by (intro digits_well_formed) simp_all
  then show ?thesis
    using extract_huge extract_inf by simp
qed

section \<open>Properties of the sample aggregator\<close>

lemma py_max_nonempty: "xs \<noteq> [] \<Longrightarrow> py_max xs = Inr (Max (set xs))"
  by (simp add: py_max_def)

lemma modes_of_set:
  "set (modes_of tbl mx) = {a. (a, mx) \<in> set tbl}"
  by (auto simp: modes_of_def image_iff)

lemma modes_of_distinct:
  "distinct (map fst tbl) \<Longrightarrow> distinct (modes_of tbl mx)"
  by (simp add: modes_of_def distinct_map_filter)

lemma weighted_modes_Inr:
  assumes "distinct (map fst tbl)" and "\<forall>m \<in> set ms. (m, mx) \<in> set tbl"
  shows "weighted_modes tbl ms = Inr (concat (map (replicate mx) ms))"
  using assms(2)
proof (induction ms)
  case Nil
  then show ?case by simp
next
  case (Cons m ms)
  then have "map_of tbl m = Some mx"
    using assms(1) by simp
  with Cons show ?case by simp
qed

lemma count_list_replicate:
  "count_list (replicate n b) a = (if a = b then n else 0)"
  by (induction n) auto

lemma count_list_concat_replicate:
  "distinct ms \<Longrightarrow>
     count_list (concat (map (replicate n) ms)) a = (if a \<in> set ms then n else 0)"
  by (induction ms) (auto simp: count_list_append count_list_replicate)

lemma set_concat_replicate:
  "set (concat (map (replicate n) ms)) \<subseteq> set ms"
  by (induction ms) auto

lemma Max_attained:
  assumes "tbl \<noteq> []"
  shows "\<exists>a. (a, Max (set (map snd tbl))) \<in> set tbl"
proof -
  have "Max (set (map snd tbl)) \<in> set (map snd tbl)"
    using assms by (intro Max_in) auto
  then show ?thesis by auto
qed

lemma distinct_set_singleton:
  assumes "set xs = {a}" and "distinct xs"
  shows "xs = [a]"
proof (cases xs)
  case Nil
  with assms show ?thesis by simp
next
  case (Cons y ys)
  with assms have "y = a" by auto
  moreover have "ys = []"
  proof (cases ys)
    case Nil then show ?thesis .
  next
    case (Cons z zs)
    with assms \<open>xs = y # ys\<close> \<open>y = a\<close> show ?thesis by auto
  qed
  ultimately show ?thesis using Cons by simp
qed

lemma unique_mode:
  assumes "distinct (map fst tbl)" and "(a, f) \<in> set tbl"
    and "\<forall>(b, g) \<in> set tbl. g \<le> f \<and> (g = f \<longrightarrow> b = a)"
  shows "Max (set (map snd tbl)) = f" and "modes_of tbl f = [a]"
proof -
  show "Max (set (map snd tbl)) = f"
  proof (rule Max_eqI)
    show "finite (set (map snd tbl))" by simp
    show "\<And>y. y \<in> set (map snd tbl) \<Longrightarrow> y \<le> f" using assms(3) by auto
    show "f \<in> set (map snd tbl)" using assms(2) by force
  qed
  have "set (modes_of tbl f) = {a}"
    using assms(2,3) by (auto simp: modes_of_set)
  moreover have "distinct (modes_of tbl f)"
    using assms(1) by (rule modes_of_distinct)
  ultimately show "modes_of tbl f = [a]"
    by (rule distinct_set_singleton)
qed

text \<open>
  Claim C2. When exactly one answer \<open>a\<close> attains the maximum frequency \<open>f\<close> of a table
  with distinct keys, \<open>select_mode_or_sample\<close> returns \<open>(a, mode)\<close> whatever the random draw
  \<open>r\<close> is, in the form of \<open>utils/v3\<close> and in the form of \<open>utils/v2\<close>; on the table
  \<open>{10.00: 3, 12.00: 1}\<close> it returns \<open>(10.00, mode)\<close>.
\<close>

theorem select_mode_unique_maximum:
  assumes "distinct (map fst tbl)" and "(a, f) \<in> set tbl"
    and "\<forall>(b, g) \<in> set tbl. g \<le> f \<and> (g = f \<longrightarrow> b = a)"
  shows "select_mode_or_sample r tbl = Inr (a, ''mode'')
    \<and> (\<forall>uvc. map (\<lambda>(c, ds). (c, length ds)) uvc = tbl \<longrightarrow>
          select_mode_or_sample_v2 r uvc = Inr (a, ''mode''))
    \<and> select_mode_or_sample r [(''10.00'', 3), (''12.00'', 1)] = Inr (''10.00'', ''mode'')"
proof -
  have ne: "tbl \<noteq> []" using assms(2) by auto
  have mx: "Max (set (map snd tbl)) = f" and md: "modes_of tbl f = [a]"
    using unique_mode [OF assms] by simp_all
  have main: "select_mode_or_sample r tbl = Inr (a, ''mode'')"
    using ne mx md by (simp add: select_mode_or_sample_def py_max_def)
  have conc: "select_mode_or_sample r [(''10.00'', 3), (''12.00'', 1)] = Inr (''10.00'', ''mode'')"
    by (simp add: select_mode_or_sample_def py_max_def modes_of_def)
  from main conc show ?thesis
    by (simp add: select_mode_or_sample_v2_def)
qed

text \<open>A table whose unique maximum is not the first key, in both forms.\<close>

theorem select_mode_unique_maximum_witness:
  "\<forall>r. select_mode_or_sample r [(''7.00'', 1), (''8.50'', 2)] = Inr (''8.50'', ''mode'')
     \<and> select_mode_or_sample_v2 r [(''7.00'', [''p1'']), (''8.50'', [''p2'', ''p3''])]
         = Inr (''8.50'', ''mode'')"
proof
  fix r
  have "distinct (map fst [(''7.00'', 1::nat), (''8.50'', 2)])" by simp
  moreover have "(''8.50'', 2::nat) \<in> set [(''7.00'', 1), (''8.50'', 2)]" by simp
  moreover have "\<forall>(b, g) \<in> set [(''7.00'', 1::nat), (''8.50'', 2)].
      g \<le> 2 \<and> (g = 2 \<longrightarrow> b = ''8.50'')" by simp
  ultimately show "select_mode_or_sample r [(''7.00'', 1), (''8.50'', 2)] = Inr (''8.50'', ''mode'')
     \<and> select_mode_or_sample_v2 r [(''7.00'', [''p1'']), (''8.50'', [''p2'', ''p3''])]
         = Inr (''8.50'', ''mode'')"
    using select_mode_unique_maximum [of "[(''7.00'', 1), (''8.50'', 2)]" "''8.50''" 2 r]
    by simp
qed

lemma count_list_indices:
  "count_list xs a = card {i. i < length xs \<and> xs ! i = a}"
proof -
  have "count_list xs a = length (filter ((=) a) xs)"
    by (rule count_list_eq_length_filter)
  also have "\<dots> = card {i. i < length xs \<and> a = xs ! i}"
    by (rule length_filter_conv_card)
  also have "{i. i < length xs \<and> a = xs ! i} = {i. i < length xs \<and> xs ! i = a}"
    by blast
  finally show ?thesis .
qed

text \<open>
  Claim C10. For a non-empty table with distinct keys, with \<open>mx\<close> the maximum frequency,
  \<open>modes\<close> the answers that attain it and \<open>pool\<close> the weighted pool the code builds:
  \<^item> every answer the function returns has the maximum frequency;
  \<^item> when one answer attains the maximum, the result is that answer with the tag \<open>mode\<close>,
    for every draw;
  \<^item> the pool holds each answer of maximum frequency exactly \<open>mx\<close> times and no other
    answer, so each tied answer stands at exactly \<open>mx\<close> of the indices of the pool;
  \<^item> when several answers tie, the result for the draw \<open>r\<close> is the element of the pool at
    index \<open>r mod length pool\<close> with the tag \<open>sampling\<close> (\<open>random.choice\<close> raises
    \<open>IndexError\<close> on the empty pool of a tie at frequency 0), so the draw is uniform over
    the tied answers when the index is uniform;
  \<^item> the function returns for every draw when the maximum frequency is positive;
  \<^item> the \<open>utils/v2\<close> form is the \<open>utils/v3\<close> form on the counted table.
\<close>

theorem select_mode_or_sample_attains_maximum:
  assumes "tbl \<noteq> []" and "distinct (map fst tbl)"
  shows "(\<forall>r a m. select_mode_or_sample r tbl = Inr (a, m) \<longrightarrow>
            (a, Max (set (map snd tbl))) \<in> set tbl)
    \<and> (\<forall>r. length (modes_of tbl (Max (set (map snd tbl)))) = 1 \<longrightarrow>
            select_mode_or_sample r tbl
              = Inr (hd (modes_of tbl (Max (set (map snd tbl)))), ''mode''))
    \<and> (\<forall>r a. select_mode_or_sample r tbl = Inr (a, ''mode'') \<longrightarrow>
            modes_of tbl (Max (set (map snd tbl))) = [a])
    \<and> (\<exists>pool. weighted_modes tbl (modes_of tbl (Max (set (map snd tbl)))) = Inr pool
          \<and> (\<forall>a. count_list pool a
                = (if (a, Max (set (map snd tbl))) \<in> set tbl then Max (set (map snd tbl)) else 0))
          \<and> (\<forall>a. card {i. i < length pool \<and> pool ! i = a}
                = (if (a, Max (set (map snd tbl))) \<in> set tbl then Max (set (map snd tbl)) else 0))
          \<and> (\<forall>r. length (modes_of tbl (Max (set (map snd tbl)))) \<noteq> 1 \<longrightarrow>
                select_mode_or_sample r tbl
                  = (if pool = [] then Inl IndexError
                     else Inr (pool ! (r mod length pool), ''sampling''))))
    \<and> (0 < Max (set (map snd tbl)) \<longrightarrow> (\<forall>r. \<exists>a m. select_mode_or_sample r tbl = Inr (a, m)))
    \<and> (\<forall>r uvc. map (\<lambda>(c, ds). (c, length ds)) uvc = tbl \<longrightarrow>
          select_mode_or_sample_v2 r uvc = select_mode_or_sample r tbl)"
proof -
  define mx where "mx = Max (set (map snd tbl))"
  define modes where "modes = modes_of tbl mx"
  define pool where "pool = concat (map (replicate mx) modes)"
  have pm: "py_max (map snd tbl) = Inr mx"
    using assms(1) by (simp add: py_max_def mx_def)
  have modes_set: "set modes = {a. (a, mx) \<in> set tbl}"
    by (simp add: modes_def modes_of_set)
  have modes_dist: "distinct modes"
    using assms(2) by (simp add: modes_def modes_of_distinct)
  have modes_ne: "modes \<noteq> []"
    using Max_attained [OF assms(1)] modes_set by (auto simp: mx_def)
  have wm: "weighted_modes tbl modes = Inr pool"
    unfolding pool_def using assms(2) modes_set by (intro weighted_modes_Inr) auto
  have cnt: "count_list pool a = (if (a, mx) \<in> set tbl then mx else 0)" for a
    using count_list_concat_replicate [OF modes_dist, of mx a] modes_set
    by (simp add: pool_def)
  have idx: "card {i. i < length pool \<and> pool ! i = a} = (if (a, mx) \<in> set tbl then mx else 0)" for a
    using cnt [of a] by (simp only: count_list_indices)
  have pool_sub: "set pool \<subseteq> set modes"
    unfolding pool_def by (rule set_concat_replicate)
  have sel: "select_mode_or_sample r tbl =
      (if length modes = 1 then Inr (hd modes, ''mode'')
       else (case random_choice r pool of Inl e \<Rightarrow> Inl e | Inr c \<Rightarrow> Inr (c, ''sampling'')))" for r
    using pm wm by (simp add: select_mode_or_sample_def modes_def Let_def)
  have hd_in: "hd modes \<in> set modes" using modes_ne by simp
  have choice_in: "random_choice r pool = Inr c \<Longrightarrow> c \<in> set pool" for r c
    by (auto simp: random_choice_def split: if_splits)
  have p1: "select_mode_or_sample r tbl = Inr (a, m) \<Longrightarrow> (a, mx) \<in> set tbl" for r a m
    using hd_in pool_sub choice_in modes_set
    by (auto simp: sel split: if_splits sum.splits)
  have p1b: "length modes = 1 \<Longrightarrow> select_mode_or_sample r tbl = Inr (hd modes, ''mode'')" for r
    by (simp add: sel)
  have p2: "select_mode_or_sample r tbl = Inr (a, ''mode'') \<Longrightarrow> modes = [a]" for r a
    by (cases modes) (auto simp: sel split: if_splits sum.splits)
  have p3: "length modes \<noteq> 1 \<Longrightarrow> select_mode_or_sample r tbl
      = (if pool = [] then Inl IndexError else Inr (pool ! (r mod length pool), ''sampling''))" for r
    by (simp add: sel random_choice_def)
  have pool_len: "length pool = mx * length modes"
    by (simp add: pool_def length_concat comp_def sum_list_triv)
  have p4: "\<exists>a m. select_mode_or_sample r tbl = Inr (a, m)" if "0 < mx" for r
  proof -
    have "pool \<noteq> []" using pool_len that modes_ne by auto
    then show ?thesis by (simp add: sel random_choice_def)
  qed
  have pool_ex: "\<exists>pool. weighted_modes tbl modes = Inr pool
      \<and> (\<forall>a. count_list pool a = (if (a, mx) \<in> set tbl then mx else 0))
      \<and> (\<forall>a. card {i. i < length pool \<and> pool ! i = a} = (if (a, mx) \<in> set tbl then mx else 0))
      \<and> (\<forall>r. length modes \<noteq> 1 \<longrightarrow> select_mode_or_sample r tbl
            = (if pool = [] then Inl IndexError else Inr (pool ! (r mod length pool), ''sampling'')))"
    using wm cnt idx p3 by blast
  show ?thesis
    unfolding mx_def [symmetric] modes_def [symmetric] select_mode_or_sample_v2_def
    using p1 p1b p2 pool_ex p4 by blast
qed

text \<open>
  A tie between two answers of frequency 2: every draw returns one of them, and the draws 0
  and 2 return different ones.
\<close>

theorem select_mode_or_sample_attains_maximum_witness:
  "(\<forall>r. \<exists>a m. select_mode_or_sample r [(''10.00'', 2), (''9.00'', 1), (''12.00'', 2)] = Inr (a, m)
       \<and> (a, 2::nat) \<in> set [(''10.00'', 2), (''9.00'', 1), (''12.00'', 2)])
   \<and> select_mode_or_sample 0 [(''10.00'', 2), (''9.00'', 1), (''12.00'', 2)]
       = Inr (''10.00'', ''sampling'')
   \<and> select_mode_or_sample 2 [(''10.00'', 2), (''9.00'', 1), (''12.00'', 2)]
       = Inr (''12.00'', ''sampling'')"
proof -
  let ?T = "[(''10.00'', 2::nat), (''9.00'', 1), (''12.00'', 2)]"
  have mx: "Max (set (map snd ?T)) = 2" by simp
  have md: "modes_of ?T 2 = [''10.00'', ''12.00'']" by (simp add: modes_of_def)
  have "?T \<noteq> []" and "distinct (map fst ?T)" by simp_all
  note th = select_mode_or_sample_attains_maximum [OF this, unfolded mx md]
  have pos: "0 < (2::nat)" by simp
  have ret: "\<exists>a m. select_mode_or_sample r ?T = Inr (a, m)" for r
    using th pos by blast
  have att: "(a, 2) \<in> set ?T" if "select_mode_or_sample r ?T = Inr (a, m)" for r a m
    using th that by blast
  have wm: "weighted_modes ?T [''10.00'', ''12.00'']
      = Inr [''10.00'', ''10.00'', ''12.00'', ''12.00'']"
    by (simp add: numeral_2_eq_2)
  from th obtain pool where pool: "weighted_modes ?T [''10.00'', ''12.00''] = Inr pool"
    and draw: "\<And>r. select_mode_or_sample r ?T
        = (if pool = [] then Inl IndexError else Inr (pool ! (r mod length pool), ''sampling''))"
    by auto
  from pool wm have p: "pool = [''10.00'', ''10.00'', ''12.00'', ''12.00'']" by simp
  have d0: "select_mode_or_sample 0 ?T = Inr (''10.00'', ''sampling'')"
    using draw [of 0] by (simp add: p)
  have d2: "select_mode_or_sample 2 ?T = Inr (''12.00'', ''sampling'')"
    using draw [of 2] by (simp add: p)
  from ret att d0 d2 show ?thesis by blast
qed

section \<open>Properties of the equation extractor\<close>

lemma find_close_Some:
  "find_close xs = Some (body, after) \<Longrightarrow> xs = body @ '']]'' @ after"
proof (induction xs arbitrary: body)
  case Nil
  then show ?case by simp
next
  case (Cons c cs)
  show ?case
  proof (cases "c = CHR '']'' \<and> take 1 cs = '']''")
    case True
    then obtain cs' where "cs = CHR '']'' # cs'"
      by (cases cs) auto
    with True Cons.prems show ?thesis by simp
  next
    case False
    with Cons.prems obtain b where "find_close cs = Some (b, after)" and "body = c # b"
      by (auto split: if_splits)
    with Cons.IH show ?thesis by simp
  qed
qed

lemma has_bracketed_Cons: "has_bracketed cs \<Longrightarrow> has_bracketed (c # cs)"
  unfolding has_bracketed_def by (metis append_Cons)

lemma findall_brackets_none:
  "\<not> has_bracketed s \<Longrightarrow> findall_brackets skip s = []"
proof (induction s arbitrary: skip)
  case Nil
  then show ?case by simp
next
  case (Cons c cs)
  then have IH: "findall_brackets k cs = []" for k
    using has_bracketed_Cons by blast
  show ?case
  proof (cases skip)
    case (Suc k)
    then show ?thesis using IH by simp
  next
    case 0
    show ?thesis
    proof (cases "c = CHR ''['' \<and> take 1 cs = ''[''")
      case False
      then show ?thesis using 0 IH by auto
    next
      case True
      then obtain cs' where cs: "cs = CHR ''['' # cs'"
        by (cases cs) auto
      have "find_close cs' = None"
      proof (rule ccontr)
        assume "find_close cs' \<noteq> None"
        then obtain b a where "find_close cs' = Some (b, a)" by auto
        then have "cs' = b @ '']]'' @ a" by (rule find_close_Some)
        then have "c # cs = [] @ ''[['' @ b @ '']]'' @ a"
          using True cs by simp
        then have "has_bracketed (c # cs)"
          unfolding has_bracketed_def by blast
        with Cons.prems show False by simp
      qed
      then show ?thesis using 0 True cs IH by simp
    qed
  qed
qed

text \<open>
  Claim C7. A prediction text with no substring that starts with two opening square brackets
  and ends with two closing ones is returned unchanged by \<open>get_declarative_equations\<close>.
\<close>

theorem get_declarative_equations_no_brackets:
  assumes "\<not> (\<exists>u v w. prediction = u @ ''[['' @ v @ '']]'' @ w)"
  shows "get_declarative_equations prediction = prediction"
proof -
  have "findall_brackets 0 prediction = []"
    using assms by (intro findall_brackets_none) (simp add: has_bracketed_def)
  then show ?thesis
    by (simp add: get_declarative_equations_def)
qed

lemma no_open_bracket_not_bracketed:
  "CHR ''['' \<notin> set s \<Longrightarrow> \<not> (\<exists>u v w. s = u @ ''[['' @ v @ '']]'' @ w)"
  by auto

text \<open>A text without any bracket.\<close>

theorem get_declarative_equations_no_brackets_witness:
  "get_declarative_equations ''The answer is 3'' = ''The answer is 3''"
  using get_declarative_equations_no_brackets [of "''The answer is 3''"]
    no_open_bracket_not_bracketed [of "''The answer is 3''"]
  by simp

section \<open>Properties of the symbolic solver\<close>

lemma assign_chars_zip:
  "length vars \<le> length unused \<Longrightarrow> assign_chars vars unused = Inr (zip vars unused)"
proof (induction vars unused rule: assign_chars.induct)
  case (1 unused_chars)
  then show ?case by simp
next
  case (2 var vars)
  then show ?case by simp
next
  case (3 var vars u unused_chars)
  then show ?case by simp
qed

lemma assign_chars_short:
  "length unused < length vars \<Longrightarrow> assign_chars vars unused = Inl IndexError"
  by (induction vars unused rule: assign_chars.induct) auto

lemma unused_chars_distinct: "distinct (unused_chars_of it equations)"
  unfolding unused_chars_of_def by (intro distinct_filter) simp

lemma unused_chars_single:
  "u \<in> set (unused_chars_of it equations) \<Longrightarrow>
     length u = 1 \<and> u \<notin> set (var_names_of it equations)"
proof -
  assume "u \<in> set (unused_chars_of it equations)"
  then have "u \<in> (\<lambda>c. [c]) ` set ''abcdefghijklmnopqrstuvwxyz''"
    and "u \<notin> set (var_names_of it equations)"
    unfolding unused_chars_of_def set_filter set_map by blast+
  then show ?thesis by auto
qed

text \<open>
  Claim C6. Let the set of identifiers be iterated in any order that lists each once, and let
  the long names (more than one character) be no more than the lowercase letters that are not
  identifiers of the input. Then \<open>simplify_variables\<close> returns, and its mapping has exactly
  the long names as keys, maps no two of them to the same letter, and assigns only single
  letters that are not identifiers of the input. (With more long names than free letters
  \<open>pop(0)\<close> raises \<open>IndexError\<close>, lemma \<open>assign_chars_short\<close>.)
\<close>

theorem simplify_variables_injective:
  assumes "set_iter_ok it (re_findall_ident False equations)"
    and "length (long_var_names_of it equations) \<le> length (unused_chars_of it equations)"
  shows "\<exists>eqs var_mapping.
      simplify_variables it equations = Inr (eqs, var_mapping)
      \<and> set (map fst var_mapping)
          = {var \<in> set (re_findall_ident False equations). length var > 1}
      \<and> distinct (map fst var_mapping)
      \<and> distinct (map snd var_mapping)
      \<and> (\<forall>short \<in> set (map snd var_mapping).
            length short = 1 \<and> short \<notin> set (re_findall_ident False equations))"
proof -
  let ?long = "long_var_names_of it equations" and ?unused = "unused_chars_of it equations"
  let ?m = "zip ?long ?unused"
  have vn: "distinct (var_names_of it equations)"
    "set (var_names_of it equations) = set (re_findall_ident False equations)"
    using assms(1) by (simp_all add: set_iter_ok_def var_names_of_def)
  have ac: "assign_chars ?long ?unused = Inr ?m"
    using assms(2) by (rule assign_chars_zip)
  have fst: "map fst ?m = ?long"
    using assms(2) by (simp add: map_fst_zip_take)
  have snd: "map snd ?m = take (length ?long) ?unused"
    using assms(2) by (simp add: map_snd_zip_take)
  have keys: "set ?long = {var \<in> set (re_findall_ident False equations). length var > 1}"
    using vn(2) by (auto simp: long_var_names_of_def)
  have dl: "distinct ?long"
    using vn(1) by (simp add: long_var_names_of_def)
  have du: "distinct (take (length ?long) ?unused)"
    using unused_chars_distinct by (rule distinct_take)
  have fresh: "\<forall>short \<in> set (take (length ?long) ?unused).
      length short = 1 \<and> short \<notin> set (re_findall_ident False equations)"
    using unused_chars_single [of _ it equations] vn(2)
    by (auto dest: in_set_takeD)
  have res: "simplify_variables it equations =
      Inr (foldl (\<lambda>eqs (long_var, short_var). re_sub_word long_var short_var eqs) equations ?m, ?m)"
    using ac by (simp add: simplify_variables_def)
  show ?thesis
  proof (intro exI conjI)
    show "simplify_variables it equations =
      Inr (foldl (\<lambda>eqs (long_var, short_var). re_sub_word long_var short_var eqs) equations ?m, ?m)"
      by (rule res)
    show "set (map fst ?m) = {var \<in> set (re_findall_ident False equations). length var > 1}"
      unfolding fst by (rule keys)
    show "distinct (map fst ?m)" unfolding fst by (rule dl)
    show "distinct (map snd ?m)" unfolding snd by (rule du)
    show "\<forall>short \<in> set (map snd ?m).
      length short = 1 \<and> short \<notin> set (re_findall_ident False equations)"
      unfolding snd by (rule fresh)
  qed
qed

text \<open>Three long names and the single-letter identifier \<open>x\<close>.\<close>

lemma simplify_variables_example_fits:
  "length (long_var_names_of remdups ''total = price * qty + x'')
     \<le> length (unused_chars_of remdups ''total = price * qty + x'')"
  by code_simp

theorem simplify_variables_injective_witness:
  "\<exists>eqs var_mapping.
      simplify_variables remdups ''total = price * qty + x'' = Inr (eqs, var_mapping)
      \<and> distinct (map fst var_mapping) \<and> distinct (map snd var_mapping)"
proof -
  have "set_iter_ok remdups (re_findall_ident False ''total = price * qty + x'')"
    by (simp only: set_iter_ok_def distinct_remdups set_remdups simp_thms)
  from simplify_variables_injective [OF this simplify_variables_example_fits]
  show ?thesis by blast
qed


lemma is_outcome_simps:
  "is_outcome (Float x)" "is_outcome (Tag ''invalid equations'')"
  "is_outcome (Tag ''no goal found'')" "is_outcome (Tag ''no solution'')"
  "is_outcome (Tag ''bug'')"
  by (simp_all add: is_outcome_def failure_tags_def)

lemma solve_loop_outcome: "is_outcome (solve_loop env g gl eqs)"
proof (induction eqs arbitrary: gl)
  case Nil
  show ?case by (simp add: is_outcome_simps)
next
  case (Cons sub_eqs rest)
  show ?case
    by (simp add: Let_def is_outcome_simps Cons split: sum.splits)
qed

lemma solve_tail_outcome: "is_outcome (solve_tail env equation_list goal_var gl)"
  unfolding solve_tail_def
  by (simp add: is_outcome_simps solve_loop_outcome split: sum.splits option.splits)

lemma solve_body_outcome: "solve_body env equations = Inr r \<Longrightarrow> is_outcome r"
proof -
  assume a: "solve_body env equations = Inr r"
  show ?thesis
  proof (cases "simplify_variables (set_iter env) equations")
    case (Inl e)
    with a show ?thesis by (simp add: solve_body_def)
  next
    case (Inr p)
    obtain eqs m where p: "p = (eqs, m)" by (cases p)
    define el where "el = py_split CHR '','' eqs"
    define lhs where "lhs = py_strip (hd (py_split CHR ''='' (last el)))"
    define ge where "ge l = [l] @ '' - ('' @ lhs @ '')''" for l
    have body: "solve_body env equations =
      (if eqs = ''nan'' then Inr (Float NaN)
       else if list_ex three_alpha el then Inr (Tag ''invalid equations'')
       else if str_isalpha lhs \<or> length lhs = 2 then Inr (solve_tail env el (Some lhs) [])
       else if CHR ''='' \<in> set (last el) then
         (case find (\<lambda>l. l \<notin> set (last el))
                 (''abcdefghijklmnopqrstuvwxyz'' @ ''ABCDEFGHIJKLMNOPQRSTUVWXYZ'') of
            None \<Rightarrow> Inr (Tag ''invalid equations'')
          | Some l \<Rightarrow>
              (case parse_expr env (ge l) of
                 Inl e \<Rightarrow> Inl e
               | Inr parsed \<Rightarrow>
                   (case sympify env parsed of
                      Inl e \<Rightarrow> Inl e
                    | Inr goal_expression \<Rightarrow>
                        (case solve_first env goal_expression of
                           Inr v \<Rightarrow> Inr (Float v)
                         | Inl e \<Rightarrow> Inr (solve_tail env el (Some [l]) [goal_expression])))))
       else Inr (solve_tail env el None []))"
      unfolding solve_body_def Inr p el_def lhs_def ge_def Let_def by simp
    consider (nan) "eqs = ''nan''"
      | (guard) "eqs \<noteq> ''nan''" "list_ex three_alpha el"
      | (direct) "eqs \<noteq> ''nan''" "\<not> list_ex three_alpha el" "str_isalpha lhs \<or> length lhs = 2"
      | (synth) "eqs \<noteq> ''nan''" "\<not> list_ex three_alpha el" "\<not> (str_isalpha lhs \<or> length lhs = 2)"
          "CHR ''='' \<in> set (last el)"
      | (nogoal) "eqs \<noteq> ''nan''" "\<not> list_ex three_alpha el" "\<not> (str_isalpha lhs \<or> length lhs = 2)"
          "CHR ''='' \<notin> set (last el)"
      by blast
    then show ?thesis
    proof cases
      case nan
      with a body show ?thesis by (auto simp: is_outcome_simps)
    next
      case guard
      with a body show ?thesis by (auto simp: is_outcome_simps)
    next
      case direct
      with a body have "r = solve_tail env el (Some lhs) []" by simp
      then show ?thesis by (simp add: solve_tail_outcome)
    next
      case synth
      with a body show ?thesis
        by (simp split: option.splits sum.splits)
           (auto simp: is_outcome_simps solve_tail_outcome)
    next
      case nogoal
      with a body have "r = solve_tail env el None []" by simp
      then show ?thesis by (simp add: solve_tail_outcome)
    qed
  qed
qed

text \<open>
  Claim C8. Whatever SymPy does (return or raise, at every call) and whatever the input string
  is, \<open>get_final_using_sympy\<close> returns: its result is a float (\<open>Float NaN\<close> included) or
  one of the tags \<open>invalid equations\<close>, \<open>no goal found\<close>, \<open>no solution\<close>, \<open>bug\<close>, and
  never a raised exception (\<open>Inl\<close>).
\<close>

theorem get_final_using_sympy_never_raises:
  "(\<exists>x. get_final_using_sympy env equations = Inr (Float x))
    \<or> get_final_using_sympy env equations = Inr (Tag ''invalid equations'')
    \<or> get_final_using_sympy env equations = Inr (Tag ''no goal found'')
    \<or> get_final_using_sympy env equations = Inr (Tag ''no solution'')
    \<or> get_final_using_sympy env equations = Inr (Tag ''bug'')"
proof (cases "solve_body env equations")
  case (Inl e)
  then show ?thesis by (simp add: get_final_using_sympy_def)
next
  case (Inr r)
  then have "is_outcome r" by (rule solve_body_outcome)
  with Inr show ?thesis
    by (auto simp: get_final_using_sympy_def is_outcome_def failure_tags_def)
qed

lemma example_findall: "re_findall_ident False ''x = 2 + 3'' = [''x'']"
  by code_simp

lemma example_split_comma: "py_split CHR '','' ''x = 2 + 3'' = [''x = 2 + 3'']"
  by code_simp

lemma example_guard: "list_ex three_alpha [''x = 2 + 3''] = False"
  by code_simp

lemma example_lhs: "hd (py_split CHR ''='' ''x = 2 + 3'') = ''x ''"
  by code_simp

lemma example_lhs_strip: "py_strip ''x '' = ''x''"
  by code_simp

lemma example_lhs_alpha: "str_isalpha ''x''"
  by code_simp

lemma example_simplify:
  assumes "set_iter_ok it (re_findall_ident False ''x = 2 + 3'')"
  shows "simplify_variables it ''x = 2 + 3'' = Inr (''x = 2 + 3'', [])"
proof -
  have one: "it [''x''] = [''x'']"
    using assms unfolding example_findall set_iter_ok_def
    by (intro distinct_set_singleton) simp_all
  have short: "filter (\<lambda>var. length var > 1) [''x''] = []"
    by simp
  have "long_var_names_of it ''x = 2 + 3'' = []"
    by (simp only: long_var_names_of_def var_names_of_def example_findall one short)
  then show ?thesis
    by (simp only: simplify_variables_def assign_chars.simps sum.case foldl.simps)
qed

lemma example_not_nan: "(''x = 2 + 3'' = ''nan'') = False"
  by simp

lemma example_shortcut:
  assumes "set_iter_ok (set_iter env) (re_findall_ident False ''x = 2 + 3'')"
  shows "get_final_using_sympy env ''x = 2 + 3'' =
     Inr (case parse_expr env ''x '' of
            Inl e \<Rightarrow> Tag ''invalid equations''
          | Inr parsed \<Rightarrow>
              (case sympify env parsed of
                 Inl e \<Rightarrow> Tag ''invalid equations''
               | Inr expr \<Rightarrow>
                   (case float_of env expr of
                      Inl e \<Rightarrow> Tag ''invalid equations''
                    | Inr v \<Rightarrow> Float v)))"
proof -
  have "solve_body env ''x = 2 + 3'' = Inr (solve_tail env [''x = 2 + 3''] (Some ''x'') [])"
    by (simp only: solve_body_def example_simplify [OF assms] sum.case prod.case Let_def
        example_not_nan example_split_comma example_guard if_False last.simps if_True
        example_lhs example_lhs_strip example_lhs_alpha simp_thms)
  then have "get_final_using_sympy env ''x = 2 + 3'' =
      Inr (solve_tail env [''x = 2 + 3''] (Some ''x'') [])"
    by (simp only: get_final_using_sympy_def sum.case)
  moreover have "length [''x = 2 + 3''] = 1" by simp
  moreover have "[''x = 2 + 3''] ! 0 = ''x = 2 + 3''" by simp
  ultimately show ?thesis
    by (simp only: solve_tail_def if_True example_lhs simp_thms)
qed

lemma atoms_env_iter: "set_iter_ok (set_iter atoms_env) xs"
  by (simp add: atoms_env_def set_iter_ok_def)

lemma parse_atom_x: "parse_atom ''x '' = Inr (Symbol ''x'')"
  by code_simp

lemma atoms_env_x: "parse_expr atoms_env ''x '' = Inr (Symbol ''x'')"
  by (simp add: atoms_env_def parse_atom_x)

lemma atoms_env_result:
  "get_final_using_sympy atoms_env ''x = 2 + 3'' = Inr (Tag ''invalid equations'')"
proof -
  have "sympify atoms_env (Symbol ''x'') = Inr (Symbol ''x'')"
    by (simp add: atoms_env_def)
  moreover have "float_of atoms_env (Symbol ''x'') = Inl TypeError"
    by (simp add: atoms_env_def float_of_atom_def)
  ultimately show ?thesis
    by (simp only: example_shortcut [OF atoms_env_iter] atoms_env_x sum.case)
qed

text \<open>
  Claim C1, as the code has it. On \<open>x = 2 + 3\<close> the solver takes the single-equation
  shortcut, which parses the left-hand side of the sole equation alone, the text \<open>x\<close> with
  its trailing blank, and returns the float of that expression, or \<open>invalid equations\<close> when
  parsing or the conversion raises. The right-hand side \<open>2 + 3\<close> is never given to SymPy.
  (The set of identifiers is iterated in an order that lists each once.)
\<close>

theorem single_equation_shortcut_reads_lhs:
  assumes "set_iter_ok (set_iter env) (re_findall_ident False ''x = 2 + 3'')"
  shows "get_final_using_sympy env ''x = 2 + 3'' =
     Inr (case parse_expr env ''x '' of
            Inl e \<Rightarrow> Tag ''invalid equations''
          | Inr parsed \<Rightarrow>
              (case sympify env parsed of
                 Inl e \<Rightarrow> Tag ''invalid equations''
               | Inr expr \<Rightarrow>
                   (case float_of env expr of
                      Inl e \<Rightarrow> Tag ''invalid equations''
                    | Inr v \<Rightarrow> Float v)))"
  using assms by (rule example_shortcut)

text \<open>
  With the stand-in for SymPy on atoms the left-hand side is the symbol \<open>x\<close>, whose
  conversion to a float raises: the result is \<open>invalid equations\<close>.
\<close>

theorem single_equation_shortcut_reads_lhs_witness:
  "get_final_using_sympy atoms_env ''x = 2 + 3'' = Inr (Tag ''invalid equations'')"
proof -
  have "sympify atoms_env (Symbol ''x'') = Inr (Symbol ''x'')"
    by (simp add: atoms_env_def)
  moreover have "float_of atoms_env (Symbol ''x'') = Inl TypeError"
    by (simp add: atoms_env_def float_of_atom_def)
  ultimately show ?thesis
    by (simp only: single_equation_shortcut_reads_lhs [OF atoms_env_iter] atoms_env_x sum.case)
qed

text \<open>Claim C1 as stated fails: the result on \<open>x = 2 + 3\<close> is not the float 5.0.\<close>

theorem solver_example_counterexample:
  "get_final_using_sympy atoms_env ''x = 2 + 3'' \<noteq> Inr (Float (Finite False 5))
    \<and> get_final_using_sympy atoms_env ''x = 2 + 3'' = Inr (Tag ''invalid equations'')"
  by (simp add: atoms_env_result)

section \<open>Properties of the collaborator wrappers\<close>

text \<open>
  The executor: when the script can be written and removed, the result is the stripped
  standard output exactly when the process completes with return code 0, and \<open>bug\<close> on a
  non-zero return code, a timeout or any other exception of \<open>subprocess.run\<close>.
\<close>

lemma run_code_result:
  assumes "write_script sb (code @ [CHR 0x0A] @ ''print(solution())'') = None"
    and "remove_script sb = None"
  shows "run_code_with_subprocess_timeout sb code timeout =
     Inr (case subprocess_run sb (code @ [CHR 0x0A] @ ''print(solution())'') timeout of
            Completed returncode stdout \<Rightarrow> if returncode = 0 then py_strip stdout else ''bug''
          | Raised e \<Rightarrow> ''bug'')"
  using assms by (simp add: run_code_with_subprocess_timeout_def Let_def)

lemma run_llm_iteration_raise:
  "llm eng i message = Inl e \<Longrightarrow> run_llm_iteration eng message False i = ''-1''"
  by (simp add: run_llm_iteration_def)

lemma run_llm_iteration_nonzero:
  "run_main eng i message = Completed rc out \<Longrightarrow> rc \<noteq> 0 \<Longrightarrow>
     run_llm_iteration eng message True i = ''-1''"
  by (simp add: run_llm_iteration_def Let_def split: option.splits)

lemma run_llm_v3_raise:
  "llm eng i message = Inl e \<Longrightarrow> run_llm_v3 eng message False i = ''bug''"
  by (simp add: run_llm_v3_def)

lemma run_llm_v3_nonzero:
  "run_main eng i message = Completed rc out \<Longrightarrow> rc \<noteq> 0 \<Longrightarrow>
     run_llm_v3 eng message True i = ''bug''"
  by (simp add: run_llm_v3_def Let_def split: option.splits)

lemma minus_one_canonical: "extract_and_format_value ''-1'' = Inr ''-1.00''"
  by code_simp

text \<open>
  Claim C9 at a failing engine. \<open>run_llm\<close> of \<open>utils/v2\<close> answers \<open>-1\<close>, not \<open>bug\<close>,
  when the in-process call raises and when the binary exits with a non-zero code;
  \<open>run_llm\<close> of \<open>utils/v3\<close> answers \<open>bug\<close> in both cases; and the canonicalizer turns
  \<open>-1\<close> into the answer \<open>-1.00\<close>.
\<close>

theorem run_llm_engine_failure:
  "run_llm 1 failing_engine ''Q: 1 + 1?'' False False = [''-1'']
    \<and> run_llm 1 failing_engine ''Q: 1 + 1?'' True False = [''-1'']
    \<and> run_llm_v3 failing_engine ''Q: 1 + 1?'' False 0 = ''bug''
    \<and> run_llm_v3 failing_engine ''Q: 1 + 1?'' True 0 = ''bug''
    \<and> extract_and_format_value ''-1'' = Inr ''-1.00''"
proof -
  have l: "llm failing_engine 0 ''Q: 1 + 1?'' = Inl OtherException"
    by (simp add: failing_engine_def)
  have r: "run_main failing_engine 0 ''Q: 1 + 1?'' = Completed 1 []"
    by (simp add: failing_engine_def)
  have one: "(1::int) \<noteq> 0" by simp
  show ?thesis
    using run_llm_iteration_raise [OF l] run_llm_iteration_nonzero [OF r one]
      run_llm_v3_raise [OF l] run_llm_v3_nonzero [OF r one] minus_one_canonical
    by (simp add: run_llm_def)
qed

end
